theory Spec2Isabelle
  imports Main
begin

section \<open>The publisher of log-courier: data model\<close>

text \<open>
  The development embeds \<^verbatim>\<open>src/lc-lib/publisher/publisher.go\<close>. The Go code keeps its
  endpoints and its pending payloads in intrusive linked lists, so the model has an explicit
  store: an address is a natural number, a pointer is an \<open>option\<close> of an address
  (\<open>None\<close> is \<^verbatim>\<open>nil\<close>), and every field access of the source is a read or a write of the
  store. Times and durations are integers (nanoseconds). The counters \<^verbatim>\<open>numPayloads\<close>
  (\<^verbatim>\<open>int64\<close>) and \<^verbatim>\<open>outOfSync\<close> (\<^verbatim>\<open>int\<close>) count payloads that are held in memory, far
  from the wrap-around of 64 bits, and are modelled as unbounded signed integers.
\<close>

type_synonym ref = nat
type_synonym time = int
type_synonym event = nat

text \<open>A spool is a Go slice \<^verbatim>\<open>[]*core.EventDescriptor\<close>; \<open>None\<close> is the \<^verbatim>\<open>nil\<close> slice.\<close>

type_synonym spool = "event list option"

definition len :: "spool \<Rightarrow> nat" where
  "len sp = (case sp of None \<Rightarrow> 0 | Some evs \<Rightarrow> length evs)"

text \<open>The two values a \<^verbatim>\<open>TimeoutFunc\<close> field takes: the method values
  \<^verbatim>\<open>(*Publisher).timeoutPending\<close> and \<^verbatim>\<open>(*Publisher).timeoutKeepalive\<close>.\<close>

datatype TimeoutFunc = FnTimeoutPending | FnTimeoutKeepalive

text \<open>Go error values handed to \<^verbatim>\<open>failEndpoint\<close>, and the run-time panics of the code.\<close>

datatype error =
    ErrNetworkTimeout | ErrNetworkPing | ErrTransport | ErrProtocol
  | ErrPayloadInvalid | ErrBugAssertion

datatype fault = NilDereference

text \<open>
  A function of the model returns \<open>None\<close> when the Go function does not return (a loop that
  follows a cyclic list), \<open>Some (Inl f)\<close> when it panics, \<open>Some (Inr x)\<close> when it returns.
\<close>

type_synonym 'a result = "(fault + 'a) option"

definition ok :: "'a \<Rightarrow> 'a result" where
  "ok x = Some (Inr x)"

definition panic :: "fault \<Rightarrow> 'a result" where
  "panic f = Some (Inl f)"

definition andThen :: "'a result \<Rightarrow> ('a \<Rightarrow> 'b result) \<Rightarrow> 'b result" where
  "andThen m f = (case m of None \<Rightarrow> None | Some (Inl e) \<Rightarrow> Some (Inl e) | Some (Inr x) \<Rightarrow> f x)"

definition returns :: "'a option \<Rightarrow> 'a result" where
  "returns m = (case m of None \<Rightarrow> None | Some x \<Rightarrow> Some (Inr x))"

text \<open>
  Modelled from the spec: the type \<^verbatim>\<open>PendingPayload\<close> (its file is not part of the
  sources at hand). Section 3 gives it the events of the spool, the number of leading events
  acknowledged so far, a roll-up window and the successor in the global in-flight queue.
  \<open>rollupMark\<close> is the acknowledgement count at the previous \<^verbatim>\<open>Rollup()\<close>.
\<close>

record PendingPayload =
  events :: "event list"
  ackCount :: nat
  rollupMark :: nat
  nextPayload :: "ref option"

text \<open>
  The fields of \<^verbatim>\<open>Endpoint\<close> that publisher.go reads and writes. Modelled from the spec:
  the pending set, the pinging flag and the state of the transport, which the missing
  \<^verbatim>\<open>Endpoint\<close> methods maintain.
\<close>

record Endpoint =
  Ready :: bool
  Full :: bool
  NextReady :: "ref option"
  NextFull :: "ref option"
  PrevFull :: "ref option"
  NextTimeout :: "ref option"
  PrevTimeout :: "ref option"
  TimeoutFunc :: "TimeoutFunc option"
  TimeoutDue :: time
  pending :: "ref list"
  pinging :: bool
  transportOk :: bool

text \<open>What the publisher does to its collaborators, in the order it does it.\<close>

datatype effect =
    RegistrarAdd ref nat nat
  | RegistrarSend
  | RegistrarClose
  | EndpointSendPayload ref ref
  | EndpointSendPing ref
  | EndpointFailed ref error
  | TimerReset time
  | SinkShutdown
  | SinkWait
  | PipelineDone

text \<open>
  The \<^verbatim>\<open>Publisher\<close> struct with the two stores. \<open>ifSpoolChan\<close> is \<open>True\<close> when the field
  holds \<^verbatim>\<open>p.spoolChan\<close> and \<open>False\<close> when it is \<^verbatim>\<open>nil\<close>; \<open>onShutdown\<close> is the local
  variable of \<^verbatim>\<open>Run\<close>, likewise. \<open>timeoutTimer\<close> is \<open>Some d\<close> while the timer is armed to
  fire at time \<open>d\<close>, and \<open>None\<close> when it is stopped or has fired. \<open>nextRef\<close> is the address
  the next allocated payload gets.
\<close>

record Publisher =
  config_Timeout :: time
  firstPayload :: "ref option"
  lastPayload :: "ref option"
  numPayloads :: int
  outOfSync :: int
  shuttingDown :: bool
  timeoutTimer :: "time option"
  timeoutHead :: "ref option"
  readyHead :: "ref option"
  fullHead :: "ref option"
  ifSpoolChan :: bool
  nextSpool :: spool
  onShutdown :: bool
  endpoints :: "ref \<Rightarrow> Endpoint"
  payloads :: "ref \<Rightarrow> PendingPayload"
  nextRef :: ref
  effects :: "effect list"

definition Second :: time where
  "Second = 1000000000"

definition keepalive_timeout :: time where
  "keepalive_timeout = 900 * Second"

definition upd_ep :: "ref \<Rightarrow> (Endpoint \<Rightarrow> Endpoint) \<Rightarrow> Publisher \<Rightarrow> Publisher" where
  "upd_ep r f p = p\<lparr>endpoints := (endpoints p)(r := f (endpoints p r))\<rparr>"

definition upd_pl :: "ref \<Rightarrow> (PendingPayload \<Rightarrow> PendingPayload) \<Rightarrow> Publisher \<Rightarrow> Publisher" where
  "upd_pl r f p = p\<lparr>payloads := (payloads p)(r := f (payloads p r))\<rparr>"

definition emit :: "effect \<Rightarrow> Publisher \<Rightarrow> Publisher" where
  "emit x p = p\<lparr>effects := effects p @ [x]\<rparr>"

section \<open>The collaborators\<close>

text \<open>Modelled from the spec: \<^verbatim>\<open>PendingPayload.HasAck\<close>, true iff \<open>ackCount > 0\<close>.\<close>

definition HasAck :: "PendingPayload \<Rightarrow> bool" where
  "HasAck pl \<longleftrightarrow> 0 < ackCount pl"

text \<open>Modelled from the spec: \<^verbatim>\<open>PendingPayload.Complete\<close>, true iff
  \<open>ackCount = len(events)\<close>.\<close>

definition Complete :: "PendingPayload \<Rightarrow> bool" where
  "Complete pl \<longleftrightarrow> ackCount pl = length (events pl)"

text \<open>Modelled from the spec: \<^verbatim>\<open>PendingPayload.Rollup\<close> returns the cursor that covers
  the events acknowledged since the previous call, and resets the window.\<close>

definition Rollup :: "PendingPayload \<Rightarrow> (nat \<times> nat) \<times> PendingPayload" where
  "Rollup pl = ((rollupMark pl, ackCount pl), pl\<lparr>rollupMark := ackCount pl\<rparr>)"

text \<open>Modelled from the spec: \<^verbatim>\<open>NewPendingPayload\<close> fails with PayloadInvalid on an
  empty event sequence.\<close>

definition NewPendingPayload :: "spool \<Rightarrow> error + PendingPayload" where
  "NewPendingPayload sp =
     (case sp of
        None \<Rightarrow> Inl ErrPayloadInvalid
      | Some evs \<Rightarrow>
          if evs = [] then Inl ErrPayloadInvalid
          else Inr \<lparr>events = evs, ackCount = 0, rollupMark = 0, nextPayload = None\<rparr>)"

text \<open>Modelled from the spec: \<^verbatim>\<open>Endpoint.NumPending\<close>, the size of the pending set.\<close>

definition NumPending :: "Endpoint \<Rightarrow> int" where
  "NumPending e = int (length (pending e))"

text \<open>Modelled from the spec: \<^verbatim>\<open>Endpoint.SendPayload\<close> enqueues the payload into the
  pending set and emits it on the transport; it returns a transport error when the send
  fails.\<close>

definition Endpoint_SendPayload :: "ref \<Rightarrow> ref \<Rightarrow> Publisher \<Rightarrow> error option \<times> Publisher" where
  "Endpoint_SendPayload e r p =
     (let p1 = upd_ep e (\<lambda>x. x\<lparr>pending := pending x @ [r]\<rparr>) p;
          p2 = emit (EndpointSendPayload e r) p1
      in (if transportOk (endpoints p2 e) then None else Some ErrTransport, p2))"

text \<open>
  Modelled from the spec: \<^verbatim>\<open>Endpoint.ProcessAck\<close>. An acknowledgement names a payload
  and a sequence. It applies to a payload of the pending set, for a sequence within the
  payload that does not regress: \<open>ackCount\<close> becomes the sequence, a complete payload leaves
  the pending set, and the call returns the payload and whether \<open>ackCount\<close> was zero before.
  The Go method returns no error; an acknowledgement it cannot apply gives the \<^verbatim>\<open>nil\<close>
  payload.
\<close>

definition Endpoint_ProcessAck ::
    "ref \<Rightarrow> ref \<times> nat \<Rightarrow> Publisher \<Rightarrow> (ref option \<times> bool) \<times> Publisher" where
  "Endpoint_ProcessAck e msg p =
     (let r = fst msg; sequence = snd msg; pl = payloads p r
      in if r \<in> set (pending (endpoints p e)) \<and> ackCount pl \<le> sequence
            \<and> sequence \<le> length (events pl)
         then
           let p1 = upd_pl r (\<lambda>x. x\<lparr>ackCount := max (ackCount x) sequence\<rparr>) p;
               p2 = (if Complete (payloads p1 r)
                     then upd_ep e (\<lambda>x. x\<lparr>pending := removeAll r (pending x)\<rparr>) p1
                     else p1)
           in ((Some r, ackCount pl = 0), p2)
         else ((None, False), p))"

text \<open>Modelled from the spec: \<^verbatim>\<open>Endpoint.ProcessPong\<close> accepts a pong, and fails with a
  protocol error when no ping was outstanding.\<close>

definition Endpoint_ProcessPong :: "ref \<Rightarrow> Publisher \<Rightarrow> error option \<times> Publisher" where
  "Endpoint_ProcessPong e p =
     (if pinging (endpoints p e)
      then (None, upd_ep e (\<lambda>x. x\<lparr>pinging := False\<rparr>) p)
      else (Some ErrProtocol, p))"

text \<open>Modelled from the spec: \<^verbatim>\<open>Endpoint.SendPing\<close> emits a ping and marks the endpoint
  as pinging; it returns a transport error when the send fails.\<close>

definition Endpoint_SendPing :: "ref \<Rightarrow> Publisher \<Rightarrow> error option \<times> Publisher" where
  "Endpoint_SendPing e p =
     (let p1 = emit (EndpointSendPing e) (upd_ep e (\<lambda>x. x\<lparr>pinging := True\<rparr>) p)
      in (if transportOk (endpoints p1 e) then None else Some ErrTransport, p1))"

definition IsPinging :: "Endpoint \<Rightarrow> bool" where
  "IsPinging e = pinging e"

section \<open>publisher.go\<close>

text \<open>\<^verbatim>\<open>failEndpoint\<close> (lines 316-319) logs the failure and does nothing else.\<close>

definition failEndpoint :: "ref \<Rightarrow> error \<Rightarrow> Publisher \<Rightarrow> Publisher" where
  "failEndpoint endpoint err p = emit (EndpointFailed endpoint err) p"

text \<open>\<^verbatim>\<open>setTimer\<close> (lines 387-390): \<^verbatim>\<open>Reset(TimeoutDue.Sub(time.Now()))\<close> arms the timer to
  fire when the head is due. The call of \<^verbatim>\<open>Reset\<close> is recorded.\<close>

definition setTimer :: "Publisher \<Rightarrow> Publisher result" where
  "setTimer p =
     (case timeoutHead p of
        None \<Rightarrow> panic NilDereference
      | Some h \<Rightarrow>
          ok (emit (TimerReset (TimeoutDue (endpoints p h)))
                (p\<lparr>timeoutTimer := Some (TimeoutDue (endpoints p h))\<rparr>)))"

text \<open>\<^verbatim>\<open>registerTimeout\<close>, lines 395-406: an endpoint that has a timeout is taken out of
  the list. The second component is the local \<^verbatim>\<open>setTimer\<close>.\<close>

definition unlinkTimeout :: "ref \<Rightarrow> Publisher \<Rightarrow> Publisher \<times> bool" where
  "unlinkTimeout endpoint p =
     (if TimeoutFunc (endpoints p endpoint) \<noteq> None then
        let r1 = (case PrevTimeout (endpoints p endpoint) of
                    None \<Rightarrow> (p\<lparr>timeoutHead := NextTimeout (endpoints p endpoint)\<rparr>, True)
                  | Some pr \<Rightarrow>
                      (upd_ep pr (\<lambda>x. x\<lparr>NextTimeout := NextTimeout (endpoints p endpoint)\<rparr>) p,
                       False));
            p1 = fst r1;
            p2 = (case NextTimeout (endpoints p1 endpoint) of
                    None \<Rightarrow> p1
                  | Some nx \<Rightarrow>
                      upd_ep nx (\<lambda>x. x\<lparr>PrevTimeout := PrevTimeout (endpoints p1 endpoint)\<rparr>) p1)
        in (p2, snd r1)
      else (p, False))"

text \<open>\<^verbatim>\<open>registerTimeout\<close>, the loop of lines 425-431: it stops at the first node that is
  due after the new time, or at the end of the list. The assignment in its body writes
  \<^verbatim>\<open>endpoint.PrevTimeout = prev\<close>, which line 434 writes again.\<close>

partial_function (option) walkTimeout ::
    "(ref \<Rightarrow> Endpoint) \<Rightarrow> time \<Rightarrow> ref \<Rightarrow> ref option \<Rightarrow> (ref \<times> ref option) option" where
  "walkTimeout eps timeoutDue prev nxt =
     (if nxt = None then Some (prev, None)
      else if timeoutDue < TimeoutDue (eps (the nxt)) then Some (prev, nxt)
      else walkTimeout eps timeoutDue (the nxt) (NextTimeout (eps (the nxt))))"

declare walkTimeout.simps [code]

text \<open>\<^verbatim>\<open>registerTimeout\<close>, lines 408-443: the new due time and function are stored and the
  endpoint is linked in, in time order.\<close>

definition insertTimeout ::
    "ref \<Rightarrow> time \<Rightarrow> TimeoutFunc \<Rightarrow> bool \<Rightarrow> Publisher \<Rightarrow> Publisher result" where
  "insertTimeout endpoint timeoutDue timeoutFunc doSetTimer p0 =
     (let p = upd_ep endpoint
                (\<lambda>x. x\<lparr>TimeoutFunc := Some timeoutFunc, TimeoutDue := timeoutDue\<rparr>) p0;
          nxt = timeoutHead p
      in if nxt = None \<or> timeoutDue < TimeoutDue (endpoints p (the nxt)) then
           let p1 = upd_ep endpoint (\<lambda>x. x\<lparr>PrevTimeout := None, NextTimeout := nxt\<rparr>)
                      (p\<lparr>timeoutHead := Some endpoint\<rparr>);
               p2 = (case nxt of
                       None \<Rightarrow> p1
                     | Some n \<Rightarrow> upd_ep n (\<lambda>x. x\<lparr>PrevTimeout := Some endpoint\<rparr>) p1)
           in setTimer p2
         else
           andThen
             (returns (walkTimeout (endpoints p) timeoutDue (the nxt)
                         (NextTimeout (endpoints p (the nxt)))))
             (\<lambda>(prev, nxt').
                let p1 = upd_ep prev (\<lambda>x. x\<lparr>NextTimeout := Some endpoint\<rparr>) p;
                    p2 = upd_ep endpoint
                           (\<lambda>x. x\<lparr>PrevTimeout := Some prev, NextTimeout := nxt'\<rparr>) p1;
                    p3 = (case nxt' of
                            None \<Rightarrow> p2
                          | Some n \<Rightarrow> upd_ep n (\<lambda>x. x\<lparr>PrevTimeout := Some endpoint\<rparr>) p2)
                in if doSetTimer then setTimer p3 else ok p3))"

text \<open>\<^verbatim>\<open>registerTimeout\<close> (lines 392-443).\<close>

definition registerTimeout ::
    "ref \<Rightarrow> time \<Rightarrow> TimeoutFunc \<Rightarrow> Publisher \<Rightarrow> Publisher result" where
  "registerTimeout endpoint timeoutDue timeoutFunc p =
     (let r = unlinkTimeout endpoint p
      in insertTimeout endpoint timeoutDue timeoutFunc (snd r) (fst r))"

text \<open>\<^verbatim>\<open>sendPayload\<close>, lines 209-218: the payload is put at the end of the global queue and
  counted. The new payload is allocated at \<open>nextRef\<close>; the result is its address and the
  state.\<close>

definition appendPayload :: "PendingPayload \<Rightarrow> Publisher \<Rightarrow> (ref \<times> Publisher) result" where
  "appendPayload pl p1 =
     (let payload = nextRef p1;
          p2 = p1\<lparr>payloads := (payloads p1)(payload := pl), nextRef := payload + 1\<rparr>
      in andThen
           (case firstPayload p2 of
              None \<Rightarrow> ok (p2\<lparr>firstPayload := Some payload\<rparr>)
            | Some f \<Rightarrow>
                (case lastPayload p2 of
                   None \<Rightarrow> panic NilDereference
                 | Some l \<Rightarrow> ok (upd_pl l (\<lambda>x. x\<lparr>nextPayload := Some payload\<rparr>) p2)))
           (\<lambda>p3. ok (payload,
                      p3\<lparr>lastPayload := Some payload, numPayloads := numPayloads p3 + 1\<rparr>)))"

text \<open>\<^verbatim>\<open>sendPayload\<close>, lines 222-224: the payload is handed to the endpoint, and a failure
  to send fails the endpoint.\<close>

definition transmit :: "ref \<Rightarrow> ref \<Rightarrow> Publisher \<Rightarrow> Publisher" where
  "transmit endpoint payload p =
     (let r = Endpoint_SendPayload endpoint payload p
      in case fst r of
           Some err \<Rightarrow> failEndpoint endpoint err (snd r)
         | None \<Rightarrow> snd r)"

text \<open>\<^verbatim>\<open>sendPayload\<close> (lines 196-225).\<close>

definition sendPayload :: "time \<Rightarrow> ref \<Rightarrow> spool \<Rightarrow> Publisher \<Rightarrow> Publisher result" where
  "sendPayload now endpoint evs p =
     andThen
       (if NumPending (endpoints p endpoint) = 0
        then registerTimeout endpoint (now + config_Timeout p) FnTimeoutPending p
        else ok p)
       (\<lambda>p1.
          case NewPendingPayload evs of
            Inl err \<Rightarrow> ok p1
          | Inr pl \<Rightarrow>
              andThen (appendPayload pl p1)
                (\<lambda>r. ok (transmit endpoint (fst r) (snd r))))"

text \<open>\<^verbatim>\<open>addReady\<close>, the loop of lines 377-381: it stops at the first node with more pending
  payloads than the new endpoint has, or at the end of the list.\<close>

partial_function (option) walkReady ::
    "(ref \<Rightarrow> Endpoint) \<Rightarrow> int \<Rightarrow> ref \<Rightarrow> ref option \<Rightarrow> (ref \<times> ref option) option" where
  "walkReady eps n prev nxt =
     (if nxt = None then Some (prev, None)
      else if n < NumPending (eps (the nxt)) then Some (prev, nxt)
      else walkReady eps n (the nxt) (NextReady (eps (the nxt))))"

declare walkReady.simps [code]

text \<open>\<^verbatim>\<open>addReady\<close> (lines 363-385).\<close>

definition addReady :: "ref \<Rightarrow> Publisher \<Rightarrow> Publisher result" where
  "addReady endpoint p0 =
     (let p = upd_ep endpoint (\<lambda>x. x\<lparr>Ready := True\<rparr>) p0;
          nxt = readyHead p
      in if nxt = None
            \<or> NumPending (endpoints p endpoint) < NumPending (endpoints p (the nxt))
         then ok ((upd_ep endpoint (\<lambda>x. x\<lparr>NextReady := readyHead p\<rparr>) p)
                    \<lparr>readyHead := Some endpoint\<rparr>)
         else
           andThen
             (returns (walkReady (endpoints p) (NumPending (endpoints p endpoint)) (the nxt)
                         (NextReady (endpoints p (the nxt)))))
             (\<lambda>(prev, nxt').
                ok (upd_ep endpoint (\<lambda>x. x\<lparr>NextReady := nxt'\<rparr>)
                      (upd_ep prev (\<lambda>x. x\<lparr>NextReady := Some endpoint\<rparr>) p))))"

text \<open>\<^verbatim>\<open>registerReady\<close> (lines 321-361).\<close>

definition registerReady :: "time \<Rightarrow> ref \<Rightarrow> Publisher \<Rightarrow> Publisher result" where
  "registerReady now endpoint p =
     (if Ready (endpoints p endpoint) then ok p
      else if 4 \<le> NumPending (endpoints p endpoint) then
        (if Full (endpoints p endpoint) then ok p
         else
           let p1 = upd_ep endpoint
                      (\<lambda>x. x\<lparr>Full := True, PrevFull := None, NextFull := fullHead p\<rparr>) p;
               p2 = (case fullHead p1 of
                       None \<Rightarrow> p1
                     | Some h \<Rightarrow> upd_ep h (\<lambda>x. x\<lparr>PrevFull := Some endpoint\<rparr>) p1)
           in ok (p2\<lparr>fullHead := Some endpoint\<rparr>))
      else if nextSpool p \<noteq> None then
        andThen (sendPayload now endpoint (nextSpool p) p)
          (\<lambda>p1. ok (p1\<lparr>nextSpool := None, ifSpoolChan := True\<rparr>))
      else
        andThen (addReady endpoint p)
          (\<lambda>p1. if TimeoutFunc (endpoints p1 endpoint) = None
                then registerTimeout endpoint (now + keepalive_timeout) FnTimeoutKeepalive p1
                else ok p1))"

text \<open>\<^verbatim>\<open>processAck\<close>, the loop of lines 241-265. \<open>oos\<close> is the local \<^verbatim>\<open>outOfSync\<close>.\<close>

partial_function (option) drainAcks :: "ref \<Rightarrow> int \<Rightarrow> Publisher \<Rightarrow> Publisher option" where
  "drainAcks payload oos p =
     (if HasAck (payloads p payload) then
        let r = Rollup (payloads p payload);
            p1 = emit (RegistrarAdd payload (fst (fst r)) (snd (fst r)))
                   (upd_pl payload (\<lambda>x. snd r) p)
        in if \<not> Complete (payloads p1 payload) then Some p1
           else
             let nxt = nextPayload (payloads p1 payload);
                 p2 = p1\<lparr>firstPayload := nxt, outOfSync := oos - 1,
                         numPayloads := numPayloads p1 - 1\<rparr>
             in if nxt = None then Some p2 else drainAcks (the nxt) (oos - 1) p2
      else Some p)"

declare drainAcks.simps [code]

text \<open>\<^verbatim>\<open>processAck\<close>, lines 285-297: an endpoint that is no longer full leaves the full
  list and is offered again.\<close>

definition unlinkFull :: "ref \<Rightarrow> Publisher \<Rightarrow> Publisher" where
  "unlinkFull endpoint p =
     (let p1 = (case PrevFull (endpoints p endpoint) of
                  None \<Rightarrow> p\<lparr>fullHead := NextFull (endpoints p endpoint)\<rparr>
                | Some pr \<Rightarrow> upd_ep endpoint (\<lambda>x. x\<lparr>PrevFull := NextFull x\<rparr>) p)
      in case NextFull (endpoints p1 endpoint) of
           None \<Rightarrow> p1
         | Some nx \<Rightarrow> upd_ep nx (\<lambda>x. x\<lparr>PrevFull := PrevFull (endpoints p1 endpoint)\<rparr>) p1)"

text \<open>\<^verbatim>\<open>processAck\<close>, lines 228-272: the acknowledgement is applied and the registrar is
  fed in order. \<^verbatim>\<open>HasAck\<close> reads a field of its receiver, so a \<^verbatim>\<open>nil\<close> payload that equals a
  \<^verbatim>\<open>nil\<close> \<^verbatim>\<open>firstPayload\<close> panics.\<close>

definition ackOrdering :: "ref \<Rightarrow> ref \<times> nat \<Rightarrow> Publisher \<Rightarrow> Publisher result" where
  "ackOrdering endpoint msg p0 =
     (let r = Endpoint_ProcessAck endpoint msg p0;
          payload = fst (fst r); firstAck = snd (fst r); p = snd r
      in if payload = firstPayload p then
           (case payload of
              None \<Rightarrow> panic NilDereference
            | Some pl \<Rightarrow>
                andThen (returns (drainAcks pl (outOfSync p + 1) p))
                  (\<lambda>p1. ok (emit RegistrarSend p1)))
         else if firstAck then ok (p\<lparr>outOfSync := outOfSync p + 1\<rparr>)
         else ok p)"

text \<open>\<^verbatim>\<open>processAck\<close> (lines 227-300). It returns the \<^verbatim>\<open>nil\<close> error always.\<close>

definition processAck :: "time \<Rightarrow> ref \<Rightarrow> ref \<times> nat \<Rightarrow> Publisher \<Rightarrow> Publisher result" where
  "processAck now endpoint msg p0 =
     andThen (ackOrdering endpoint msg p0)
       (\<lambda>p1. andThen
          (if NumPending (endpoints p1 endpoint) \<noteq> 0
           then registerTimeout endpoint (now + config_Timeout p1) FnTimeoutPending p1
           else registerTimeout endpoint (now + keepalive_timeout) FnTimeoutKeepalive p1)
          (\<lambda>p2. if Full (endpoints p2 endpoint) \<and> NumPending (endpoints p2 endpoint) < 4
                then registerReady now endpoint (unlinkFull endpoint p2)
                else ok p2))"

text \<open>\<^verbatim>\<open>processPong\<close> (lines 302-314). The first component is the error it returns.\<close>

definition processPong :: "time \<Rightarrow> ref \<Rightarrow> Publisher \<Rightarrow> (error option \<times> Publisher) result" where
  "processPong now endpoint p =
     (let r = Endpoint_ProcessPong endpoint p
      in case fst r of
           Some err \<Rightarrow> ok (Some err, snd r)
         | None \<Rightarrow>
             andThen
               (if NumPending (endpoints (snd r) endpoint) = 0
                then registerTimeout endpoint (now + config_Timeout (snd r))
                       FnTimeoutKeepalive (snd r)
                else ok (snd r))
               (\<lambda>p1. ok (None, p1)))"

text \<open>\<^verbatim>\<open>timeoutPending\<close> (lines 445-452).\<close>

definition timeoutPending :: "ref \<Rightarrow> Publisher \<Rightarrow> Publisher" where
  "timeoutPending endpoint p =
     (if IsPinging (endpoints p endpoint) then failEndpoint endpoint ErrNetworkPing p
      else failEndpoint endpoint ErrNetworkTimeout p)"

text \<open>\<^verbatim>\<open>timeoutKeepalive\<close> (lines 454-462).\<close>

definition timeoutKeepalive :: "time \<Rightarrow> ref \<Rightarrow> Publisher \<Rightarrow> Publisher result" where
  "timeoutKeepalive now endpoint p =
     andThen (registerTimeout endpoint (now + config_Timeout p) FnTimeoutPending p)
       (\<lambda>p1. let r = Endpoint_SendPing endpoint p1
             in case fst r of
                  Some err \<Rightarrow> ok (failEndpoint endpoint err (snd r))
                | None \<Rightarrow> ok (snd r))"

text \<open>The call \<^verbatim>\<open>callback(p, endpoint)\<close> of a stored \<^verbatim>\<open>TimeoutFunc\<close>.\<close>

definition callTimeoutFunc :: "TimeoutFunc \<Rightarrow> time \<Rightarrow> ref \<Rightarrow> Publisher \<Rightarrow> Publisher result" where
  "callTimeoutFunc callback now endpoint p =
     (case callback of
        FnTimeoutPending \<Rightarrow> ok (timeoutPending endpoint p)
      | FnTimeoutKeepalive \<Rightarrow> timeoutKeepalive now endpoint p)"

lemma andThen_mono [partial_function_mono]:
  assumes "mono_option B" and "\<And>y. mono_option (\<lambda>f. C y f)"
  shows "mono_option (\<lambda>f. andThen (B f) (\<lambda>y. C y f))"
proof -
  have eq: "\<And>m g. andThen m g = Option.bind m (\<lambda>r. if isl r then Some (Inl (projl r)) else g (projr r))"
    by (auto simp: andThen_def split: option.splits sum.splits)
  show ?thesis
    unfolding eq by (intro partial_function_mono assms)
qed

text \<open>One round of the loop of lines 152-164 in \<^verbatim>\<open>Run\<close>: the head is taken off the timeout
  list, its function field is cleared, and the function is called. Reading a field of a
  \<^verbatim>\<open>nil\<close> head panics, and so does calling a \<^verbatim>\<open>nil\<close> function.\<close>

definition fireHead :: "time \<Rightarrow> Publisher \<Rightarrow> Publisher result" where
  "fireHead now p =
     (case timeoutHead p of
        None \<Rightarrow> panic NilDereference
      | Some endpoint \<Rightarrow>
          let p1 = p\<lparr>timeoutHead := NextTimeout (endpoints p endpoint)\<rparr>;
              callback = TimeoutFunc (endpoints p1 endpoint);
              p2 = upd_ep endpoint (\<lambda>x. x\<lparr>TimeoutFunc := None\<rparr>) p1
          in (case callback of
                None \<Rightarrow> panic NilDereference
              | Some cb \<Rightarrow> callTimeoutFunc cb now endpoint p2))"

text \<open>The loop of lines 152-164: it goes on while the new head is due. One reading of the
  clock, \<open>now\<close>, stands for the \<^verbatim>\<open>time.Now()\<close> of a callback (line 457) and for that of the
  test of the loop (line 161), which the source reads one after the other: the test of the
  source sees an endpoint that the callback has registered due a little earlier than this
  one does.\<close>

partial_function (option) processTimeouts :: "time \<Rightarrow> Publisher \<Rightarrow> Publisher result" where
  "processTimeouts now p =
     andThen (fireHead now p)
       (\<lambda>p1. if timeoutHead p1 = None
                  \<or> now < TimeoutDue (endpoints p1 (the (timeoutHead p1)))
             then ok p1
             else processTimeouts now p1)"

declare processTimeouts.simps [code]

text \<open>The timer case of \<^verbatim>\<open>Run\<close> (lines 150-170) when what it receives is the expiry of
  the current arming of the timer: the timer has fired, so it is not armed when the case
  starts.\<close>

definition timerFired :: "time \<Rightarrow> Publisher \<Rightarrow> Publisher result" where
  "timerFired now p =
     andThen (processTimeouts now (p\<lparr>timeoutTimer := None\<rparr>))
       (\<lambda>p1. case timeoutHead p1 of
               None \<Rightarrow> ok p1
             | Some h \<Rightarrow> setTimer (upd_ep h (\<lambda>x. x\<lparr>PrevTimeout := None\<rparr>) p1))"

text \<open>The body of the timer case alone (lines 152-170). It does not touch the timer unless
  it arms it for the new head.\<close>

definition timerCase :: "time \<Rightarrow> Publisher \<Rightarrow> Publisher result" where
  "timerCase now p =
     andThen (processTimeouts now p)
       (\<lambda>p1. case timeoutHead p1 of
               None \<Rightarrow> ok p1
             | Some h \<Rightarrow> setTimer (upd_ep h (\<lambda>x. x\<lparr>PrevTimeout := None\<rparr>) p1))"

section \<open>The dispatcher loop\<close>

datatype response = AckResponse "ref \<times> nat" | PongResponse | OtherResponse

text \<open>What the \<^verbatim>\<open>select\<close> of \<^verbatim>\<open>Run\<close> can receive.\<close>

datatype input =
    FromReadyChan ref
  | FromSpoolChan spool
  | FromResponseChan ref response
  | FromFailChan ref error
  | FromTimeoutTimer
  | FromStatsTimer
  | FromOnShutdown

text \<open>A receive from a \<^verbatim>\<open>nil\<close> channel never proceeds. The timer branch is the receive of
  the expiry of the current arming: the timer delivers once it has been armed and its time
  has come. An expiry that was sent before a later \<^verbatim>\<open>Reset\<close> and is still in the channel of
  the timer is not received here; \<open>loopOnBuffered\<close> below has the channel.\<close>

definition selectable :: "time \<Rightarrow> input \<Rightarrow> Publisher \<Rightarrow> bool" where
  "selectable now i p =
     (case i of
        FromSpoolChan sp \<Rightarrow> ifSpoolChan p
      | FromOnShutdown \<Rightarrow> onShutdown p
      | FromTimeoutTimer \<Rightarrow> (case timeoutTimer p of None \<Rightarrow> False | Some d \<Rightarrow> d \<le> now)
      | _ \<Rightarrow> True)"

datatype outcome = Continue Publisher | Break Publisher

text \<open>One iteration of \<^verbatim>\<open>PublishLoop\<close> (lines 114-185). \<^verbatim>\<open>updateStatistics\<close> writes only
  the speed fields, which are not part of the model.\<close>

definition publishLoop :: "time \<Rightarrow> input \<Rightarrow> Publisher \<Rightarrow> outcome result" where
  "publishLoop now i p =
     (case i of
        FromReadyChan endpoint \<Rightarrow>
          andThen (registerReady now endpoint p) (\<lambda>p1. ok (Continue p1))
      | FromSpoolChan sp \<Rightarrow>
          (case readyHead p of
             Some h \<Rightarrow>
               andThen (sendPayload now h sp (upd_ep h (\<lambda>x. x\<lparr>Ready := False\<rparr>) p))
                 (\<lambda>p1. case readyHead p1 of
                         None \<Rightarrow> panic NilDereference
                       | Some h1 \<Rightarrow>
                           ok (Continue (p1\<lparr>readyHead := NextReady (endpoints p1 h1)\<rparr>)))
           | None \<Rightarrow> ok (Continue (p\<lparr>nextSpool := sp, ifSpoolChan := False\<rparr>)))
      | FromResponseChan endpoint (AckResponse msg) \<Rightarrow>
          andThen (processAck now endpoint msg p)
            (\<lambda>p1. if shuttingDown p1 \<and> numPayloads p1 = 0 then ok (Break p1)
                  else ok (Continue p1))
      | FromResponseChan endpoint PongResponse \<Rightarrow>
          andThen (processPong now endpoint p)
            (\<lambda>r. case fst r of
                   Some err \<Rightarrow> ok (Continue (failEndpoint endpoint err (snd r)))
                 | None \<Rightarrow> ok (Continue (snd r)))
      | FromResponseChan endpoint OtherResponse \<Rightarrow>
          ok (Continue (failEndpoint endpoint ErrBugAssertion p))
      | FromFailChan endpoint err \<Rightarrow> ok (Continue (failEndpoint endpoint err p))
      | FromTimeoutTimer \<Rightarrow> andThen (timerFired now p) (\<lambda>p1. ok (Continue p1))
      | FromStatsTimer \<Rightarrow> ok (Continue p)
      | FromOnShutdown \<Rightarrow>
          if numPayloads p = 0 then ok (Break p)
          else ok (Continue (p\<lparr>onShutdown := False, ifSpoolChan := False,
                                shuttingDown := True\<rparr>)))"

text \<open>The end of \<^verbatim>\<open>Run\<close> (lines 187-193).\<close>

definition afterLoop :: "Publisher \<Rightarrow> Publisher" where
  "afterLoop p = emit PipelineDone (emit RegistrarClose (emit SinkWait (emit SinkShutdown p)))"

text \<open>The start of \<^verbatim>\<open>Run\<close> (lines 108-111).\<close>

definition beforeLoop :: "Publisher \<Rightarrow> Publisher" where
  "beforeLoop p = p\<lparr>onShutdown := True, ifSpoolChan := True\<rparr>"

text \<open>
  \<^verbatim>\<open>Run\<close> on a finite sequence of timed inputs: an input that the \<^verbatim>\<open>select\<close> cannot
  receive in the current state is not consumed. \<open>Inr (Inl p)\<close> is a dispatcher still in its
  loop when the inputs end, \<open>Inr (Inr p)\<close> one that has left \<^verbatim>\<open>Run\<close>.
\<close>

fun loopOn :: "(time \<times> input) list \<Rightarrow> Publisher \<Rightarrow> (Publisher + Publisher) result" where
  "loopOn [] p = ok (Inl p)"
| "loopOn (ti # rest) p =
     (if selectable (fst ti) (snd ti) p then
        andThen (publishLoop (fst ti) (snd ti) p)
          (\<lambda>out. case out of
                   Continue p1 \<Rightarrow> loopOn rest p1
                 | Break p1 \<Rightarrow> ok (Inr (afterLoop p1)))
      else loopOn rest p)"

definition Run :: "(time \<times> input) list \<Rightarrow> Publisher \<Rightarrow> (Publisher + Publisher) result" where
  "Run inputs p = loopOn inputs (beforeLoop p)"

text \<open>\<^verbatim>\<open>NewPublisher\<close> (lines 76-101) for a configuration with the given timeout and the given
  endpoints: the timer is created and stopped, the lists are empty.\<close>

definition NewPublisher :: "time \<Rightarrow> (ref \<Rightarrow> Endpoint) \<Rightarrow> Publisher" where
  "NewPublisher timeout eps =
     \<lparr>config_Timeout = timeout, firstPayload = None, lastPayload = None, numPayloads = 0,
      outOfSync = 0, shuttingDown = False, timeoutTimer = None, timeoutHead = None,
      readyHead = None, fullHead = None, ifSpoolChan = False, nextSpool = None,
      onShutdown = False, endpoints = eps, payloads = (\<lambda>r. \<lparr>events = [], ackCount = 0,
      rollupMark = 0, nextPayload = None\<rparr>), nextRef = 0, effects = []\<rparr>"

section \<open>The channel of the timer\<close>

text \<open>
  \<^verbatim>\<open>timeoutTimer\<close> is a \<^verbatim>\<open>time.Timer\<close>. When its time has come the runtime sends the
  expiry on the channel \<^verbatim>\<open>C\<close>, which holds one value, without blocking, and the timer is
  no longer armed. \<^verbatim>\<open>setTimer\<close> (line 389) calls \<^verbatim>\<open>Reset\<close> without \<^verbatim>\<open>Stop\<close> and without
  taking a value out of the channel, and in the Go this code was written for \<^verbatim>\<open>Reset\<close>
  leaves a value that is in the channel where it is. The state of the channel is the
  boolean next to the publisher: an expiry is waiting to be received.
\<close>

definition expire :: "time \<Rightarrow> bool \<times> Publisher \<Rightarrow> bool \<times> Publisher" where
  "expire t s =
     (case timeoutTimer (snd s) of
        None \<Rightarrow> s
      | Some d \<Rightarrow> if d \<le> t then (True, (snd s)\<lparr>timeoutTimer := None\<rparr>) else s)"

text \<open>
  \<^verbatim>\<open>Run\<close> on timed inputs, with the channel of the timer: at the time of an input the timer
  has sent its expiry when it was due, the timer case is received when an expiry is in the
  channel, and takes it out. The other cases are those of \<open>loopOn\<close>.
\<close>

fun loopOnBuffered ::
    "(time \<times> input) list \<Rightarrow> bool \<times> Publisher \<Rightarrow> ((bool \<times> Publisher) + Publisher) result" where
  "loopOnBuffered [] s = ok (Inl s)"
| "loopOnBuffered (ti # rest) s =
     (if snd ti = FromTimeoutTimer then
        (if fst (expire (fst ti) s) then
           andThen (timerCase (fst ti) (snd (expire (fst ti) s)))
             (\<lambda>p1. loopOnBuffered rest (False, p1))
         else loopOnBuffered rest (expire (fst ti) s))
      else if selectable (fst ti) (snd ti) (snd (expire (fst ti) s)) then
        andThen (publishLoop (fst ti) (snd ti) (snd (expire (fst ti) s)))
          (\<lambda>out. case out of
                   Continue p1 \<Rightarrow> loopOnBuffered rest (fst (expire (fst ti) s), p1)
                 | Break p1 \<Rightarrow> ok (Inr (afterLoop p1)))
      else loopOnBuffered rest (expire (fst ti) s))"

text \<open>\<^verbatim>\<open>NewPublisher\<close> stops the timer it creates (line 84) before it can fire: the channel
  is empty when \<^verbatim>\<open>Run\<close> starts.\<close>

definition RunBuffered ::
    "(time \<times> input) list \<Rightarrow> Publisher \<Rightarrow> ((bool \<times> Publisher) + Publisher) result" where
  "RunBuffered inputs p = loopOnBuffered inputs (False, beforeLoop p)"

section \<open>Reading the lists of the store\<close>

text \<open>The first \<open>n\<close> nodes of the list that starts at a pointer and follows a link field.\<close>

fun chain :: "(ref \<Rightarrow> ref option) \<Rightarrow> nat \<Rightarrow> ref option \<Rightarrow> ref list" where
  "chain nxt 0 x = []"
| "chain nxt (Suc n) x = (case x of None \<Rightarrow> [] | Some r \<Rightarrow> r # chain nxt n (nxt r))"

definition readyList :: "nat \<Rightarrow> Publisher \<Rightarrow> ref list" where
  "readyList n p = chain (\<lambda>r. NextReady (endpoints p r)) n (readyHead p)"

definition fullList :: "nat \<Rightarrow> Publisher \<Rightarrow> ref list" where
  "fullList n p = chain (\<lambda>r. NextFull (endpoints p r)) n (fullHead p)"

definition timeoutList :: "nat \<Rightarrow> Publisher \<Rightarrow> ref list" where
  "timeoutList n p = chain (\<lambda>r. NextTimeout (endpoints p r)) n (timeoutHead p)"

definition inFlight :: "nat \<Rightarrow> Publisher \<Rightarrow> ref list" where
  "inFlight n p = chain (\<lambda>r. nextPayload (payloads p r)) n (firstPayload p)"

text \<open>The number of payloads strictly after \<^verbatim>\<open>firstPayload\<close>, among the first \<open>n\<close> of the
  queue, that have an acknowledgement.\<close>

definition ackedBehindFirst :: "nat \<Rightarrow> Publisher \<Rightarrow> nat" where
  "ackedBehindFirst n p = length (filter (\<lambda>r. HasAck (payloads p r)) (tl (inFlight n p)))"

text \<open>The calls of the registrar among the effects.\<close>

fun isRegistrar :: "effect \<Rightarrow> bool" where
  "isRegistrar (RegistrarAdd r a b) = True"
| "isRegistrar RegistrarSend = True"
| "isRegistrar RegistrarClose = True"
| "isRegistrar x = False"

definition registrarEffects :: "Publisher \<Rightarrow> effect list" where
  "registrarEffects p = filter isRegistrar (effects p)"

text \<open>An endpoint as \<^verbatim>\<open>AddEndpoint\<close> leaves it: in no list, nothing pending.\<close>

definition idleEndpoint :: Endpoint where
  "idleEndpoint =
     \<lparr>Ready = False, Full = False, NextReady = None, NextFull = None, PrevFull = None,
      NextTimeout = None, PrevTimeout = None, TimeoutFunc = None, TimeoutDue = 0,
      pending = [], pinging = False, transportOk = True\<rparr>"

text \<open>The state a result holds when the function returned, for reading its fields.\<close>

definition returned :: "'a result \<Rightarrow> 'a option" where
  "returned m = (case m of Some (Inr x) \<Rightarrow> Some x | _ \<Rightarrow> None)"

definition stateOf :: "(Publisher + Publisher) result \<Rightarrow> Publisher option" where
  "stateOf m = (case m of Some (Inr (Inl p)) \<Rightarrow> Some p | Some (Inr (Inr p)) \<Rightarrow> Some p
                | _ \<Rightarrow> None)"

text \<open>
  The list that starts at a pointer and follows a link field to \<^verbatim>\<open>nil\<close>, as a relation
  between the store and a list of addresses; \<open>backed\<close> is the same for the back pointers of
  a doubly-linked list, from the predecessor of the first node on.
\<close>

fun linked :: "(ref \<Rightarrow> ref option) \<Rightarrow> ref option \<Rightarrow> ref list \<Rightarrow> bool" where
  "linked nxt x [] \<longleftrightarrow> x = None"
| "linked nxt x (a # as) \<longleftrightarrow> x = Some a \<and> linked nxt (nxt a) as"

fun backed :: "(ref \<Rightarrow> ref option) \<Rightarrow> ref option \<Rightarrow> ref list \<Rightarrow> bool" where
  "backed prv pr [] \<longleftrightarrow> True"
| "backed prv pr (a # as) \<longleftrightarrow> prv a = pr \<and> backed prv (Some a) as"

definition headOf :: "ref list \<Rightarrow> ref option" where
  "headOf xs = (case xs of [] \<Rightarrow> None | x # _ \<Rightarrow> Some x)"

text \<open>
  The timeout list of a publisher: the nodes from \<^verbatim>\<open>timeoutHead\<close> along \<^verbatim>\<open>NextTimeout\<close>,
  their back pointers from \<open>pr\<close> on (\<open>None\<close> between two inputs), and the endpoints with a
  timeout function are exactly the nodes of the list.
\<close>

definition timeouts :: "Publisher \<Rightarrow> ref option \<Rightarrow> ref list \<Rightarrow> bool" where
  "timeouts p pr xs \<longleftrightarrow>
     linked (\<lambda>r. NextTimeout (endpoints p r)) (timeoutHead p) xs \<and>
     backed (\<lambda>r. PrevTimeout (endpoints p r)) pr xs \<and>
     (\<forall>x. x \<in> set xs \<longleftrightarrow> TimeoutFunc (endpoints p x) \<noteq> None)"

text \<open>An endpoint and a publisher without what \<^verbatim>\<open>registerTimeout\<close> may write.\<close>

definition sansTimeout :: "Endpoint \<Rightarrow> Endpoint" where
  "sansTimeout e = e\<lparr>NextTimeout := None, PrevTimeout := None, TimeoutFunc := None, TimeoutDue := 0\<rparr>"

definition sansTimer :: "Publisher \<Rightarrow> Publisher" where
  "sansTimer p =
     p\<lparr>timeoutHead := None, timeoutTimer := None, effects := [],
       endpoints := (\<lambda>r. sansTimeout (endpoints p r))\<rparr>"

text \<open>The list after an endpoint is registered with a due time: the endpoint leaves its old
  place and goes behind the nodes that are not due after it.\<close>

definition insertDue :: "(ref \<Rightarrow> time) \<Rightarrow> time \<Rightarrow> ref \<Rightarrow> ref list \<Rightarrow> ref list" where
  "insertDue dueOf due e xs =
     takeWhile (\<lambda>x. \<not> due < dueOf x) (removeAll e xs) @ e #
     dropWhile (\<lambda>x. \<not> due < dueOf x) (removeAll e xs)"

text \<open>The effects without the resets of the timer, and what calling the timeout function of
  an endpoint does to the collaborators.\<close>

fun isTimerReset :: "effect \<Rightarrow> bool" where
  "isTimerReset (TimerReset d) = True"
| "isTimerReset x = False"

definition calls :: "Publisher \<Rightarrow> effect list" where
  "calls p = filter (\<lambda>x. \<not> isTimerReset x) (effects p)"

definition callEffects :: "Publisher \<Rightarrow> ref \<Rightarrow> effect list" where
  "callEffects p y =
     (case TimeoutFunc (endpoints p y) of
        None \<Rightarrow> []
      | Some FnTimeoutPending \<Rightarrow>
          [EndpointFailed y (if pinging (endpoints p y) then ErrNetworkPing else ErrNetworkTimeout)]
      | Some FnTimeoutKeepalive \<Rightarrow>
          EndpointSendPing y # (if transportOk (endpoints p y) then [] else [EndpointFailed y ErrTransport]))"

text \<open>
  What the loop of lines 152-164 has done when it stops: \<open>fired\<close> are the endpoints whose
  function was called, in this order, \<open>waiting\<close> the nodes it left, \<open>ys\<close> the list it leaves.
\<close>

definition drained ::
    "time \<Rightarrow> Publisher \<Rightarrow> ref list \<Rightarrow> ref list \<Rightarrow> Publisher \<Rightarrow> ref list \<Rightarrow> bool" where
  "drained now p fired waiting p' ys \<longleftrightarrow>
     calls p' = calls p @ concat (map (callEffects p) fired) \<and>
     set ys = set waiting \<union>
       {y \<in> set fired. TimeoutFunc (endpoints p y) = Some FnTimeoutKeepalive} \<and>
     (\<forall>y. TimeoutDue (endpoints p' y) =
        (if y \<in> set fired \<and> TimeoutFunc (endpoints p y) = Some FnTimeoutKeepalive
         then now + config_Timeout p else TimeoutDue (endpoints p y))) \<and>
     (\<forall>y. TimeoutFunc (endpoints p' y) =
        (if y \<in> set fired
         then (if TimeoutFunc (endpoints p y) = Some FnTimeoutKeepalive
               then Some FnTimeoutPending else None)
         else TimeoutFunc (endpoints p y))) \<and>
     (\<forall>y. y \<notin> set fired \<longrightarrow> pinging (endpoints p' y) = pinging (endpoints p y)) \<and>
     (\<forall>y. transportOk (endpoints p' y) = transportOk (endpoints p y)) \<and>
     (ys \<noteq> [] \<longrightarrow> now < TimeoutDue (endpoints p' (hd ys))) \<and>
     (ys = [] \<longrightarrow> timeoutTimer p' = timeoutTimer p) \<and>
     (sorted (map (\<lambda>y. TimeoutDue (endpoints p y)) (fired @ waiting)) \<longrightarrow>
      sorted (map (\<lambda>y. TimeoutDue (endpoints p' y)) ys)) \<and>
     config_Timeout p' = config_Timeout p"


text \<open>
  The invariant of the timer: the timeout list is well formed, and the timer is armed only
  while the list has a head.
\<close>

definition timerInv :: "Publisher \<Rightarrow> bool" where
  "timerInv p \<longleftrightarrow>
     (\<exists>xs. timeouts p None xs) \<and> (timeoutTimer p \<noteq> None \<longrightarrow> timeoutHead p \<noteq> None)"

text \<open>The state an iteration of the loop leaves.\<close>

fun stateAfter :: "outcome \<Rightarrow> Publisher" where
  "stateAfter (Continue p) = p"
| "stateAfter (Break p) = p"

text \<open>
  What every function of the publisher but the shutdown case, the spool case and
  \<^verbatim>\<open>registerReady\<close> leaves alone: the invariant of the timer under a positive network timeout,
  the configuration, the shutdown state, the parked spool and the spool gate.
\<close>

definition steady :: "Publisher \<Rightarrow> Publisher \<Rightarrow> bool" where
  "steady p p' \<longleftrightarrow>
     (timerInv p \<and> 0 < config_Timeout p \<longrightarrow> timerInv p') \<and>
     config_Timeout p' = config_Timeout p \<and>
     onShutdown p' = onShutdown p \<and> shuttingDown p' = shuttingDown p \<and>
     nextSpool p' = nextSpool p \<and> ifSpoolChan p' = ifSpoolChan p \<and>
     readyHead p' = readyHead p"

text \<open>The same without the parked spool, the spool gate and the ready list, which
  \<^verbatim>\<open>registerReady\<close> writes.\<close>

definition calm :: "Publisher \<Rightarrow> Publisher \<Rightarrow> bool" where
  "calm p p' \<longleftrightarrow>
     (timerInv p \<and> 0 < config_Timeout p \<longrightarrow> timerInv p') \<and>
     config_Timeout p' = config_Timeout p \<and>
     onShutdown p' = onShutdown p \<and> shuttingDown p' = shuttingDown p"

definition untouched :: "Publisher \<Rightarrow> Publisher \<Rightarrow> bool" where
  "untouched p p' \<longleftrightarrow>
     config_Timeout p' = config_Timeout p \<and> onShutdown p' = onShutdown p \<and>
     shuttingDown p' = shuttingDown p \<and> nextSpool p' = nextSpool p \<and>
     ifSpoolChan p' = ifSpoolChan p \<and> readyHead p' = readyHead p"

text \<open>A dispatcher in its loop with nothing in flight.\<close>

definition quiet :: Publisher where
  "quiet = beforeLoop (NewPublisher (15 * Second) (\<lambda>r. idleEndpoint))"

text \<open>I5 of the specification: a parked spool has closed the spool gate, and the ready list
  is empty.\<close>

definition parkedInv :: "Publisher \<Rightarrow> bool" where
  "parkedInv p \<longleftrightarrow> (nextSpool p \<noteq> None \<longrightarrow> \<not> ifSpoolChan p \<and> readyHead p = None)"

text \<open>A dispatcher in its loop with a spool parked: the spool arrived when no endpoint was
  ready.\<close>

definition parked :: Publisher where
  "parked =
     (case loopOn [(0, FromSpoolChan (Some [7, 8]))] quiet of
        Some (Inr (Inl p)) \<Rightarrow> p
      | _ \<Rightarrow> quiet)"

text \<open>A dispatcher with two endpoints on the ready list: endpoint 1 took a spool and was
  offered again behind endpoint 2, which has nothing pending.\<close>

definition twoReady :: Publisher where
  "twoReady =
     (case loopOn [(0, FromReadyChan 1), (1, FromSpoolChan (Some [7, 8])),
                   (2, FromReadyChan 2), (3, FromReadyChan 1)] quiet of
        Some (Inr (Inl p)) \<Rightarrow> p
      | _ \<Rightarrow> quiet)"






text \<open>What a function leaves alone of the ready list and of the \<^verbatim>\<open>Ready\<close> flags, and the
  invariant of the ready list: it is a proper linked list of the endpoints marked ready.\<close>

definition sameReady :: "Publisher \<Rightarrow> Publisher \<Rightarrow> bool" where
  "sameReady p p' \<longleftrightarrow>
     readyHead p' = readyHead p \<and>
     (\<forall>r. NextReady (endpoints p' r) = NextReady (endpoints p r)) \<and>
     (\<forall>r. Ready (endpoints p' r) = Ready (endpoints p r))"

definition readyInv :: "Publisher \<Rightarrow> bool" where
  "readyInv p \<longleftrightarrow>
     (\<exists>xs. linked (\<lambda>r. NextReady (endpoints p r)) (readyHead p) xs \<and>
           (\<forall>x. x \<in> set xs \<longleftrightarrow> Ready (endpoints p x)))"

text \<open>The two ends of the queue of payloads: \<^verbatim>\<open>sendPayload\<close> writes through \<^verbatim>\<open>lastPayload\<close>
  when \<^verbatim>\<open>firstPayload\<close> is not \<^verbatim>\<open>nil\<close>. What the functions keep of the two ends.\<close>

definition queueOk :: "Publisher \<Rightarrow> bool" where
  "queueOk p \<longleftrightarrow> (firstPayload p \<noteq> None \<longrightarrow> lastPayload p \<noteq> None)"

definition keepsLast :: "Publisher \<Rightarrow> Publisher \<Rightarrow> bool" where
  "keepsLast p p' \<longleftrightarrow>
     (lastPayload p \<noteq> None \<longrightarrow> lastPayload p' \<noteq> None) \<and>
     (firstPayload p' \<noteq> None \<longrightarrow> firstPayload p \<noteq> None \<or> lastPayload p' \<noteq> None)"

text \<open>What a function leaves alone of the queue of payloads, and the invariant of the queue:
  from \<^verbatim>\<open>firstPayload\<close> it is a proper linked list of payloads allocated before, and
  \<^verbatim>\<open>lastPayload\<close> is its last node when it has one.\<close>

definition sameQueue :: "Publisher \<Rightarrow> Publisher \<Rightarrow> bool" where
  "sameQueue p p' \<longleftrightarrow>
     firstPayload p' = firstPayload p \<and> lastPayload p' = lastPayload p \<and>
     nextRef p' = nextRef p \<and>
     (\<forall>r. nextPayload (payloads p' r) = nextPayload (payloads p r))"


section \<open>Scenarios\<close>

text \<open>
  Two endpoints take four spools each and are offered again, so both are on the full list,
  endpoint 2 at its head and endpoint 1 behind it. Endpoint 1 then acknowledges its first
  payload and drops to three pending payloads.
\<close>

definition twoFull :: "(time \<times> input) list" where
  "twoFull =
     [(0, FromReadyChan 1), (1, FromSpoolChan (Some [10])),
      (2, FromReadyChan 1), (3, FromSpoolChan (Some [11])),
      (4, FromReadyChan 1), (5, FromSpoolChan (Some [12])),
      (6, FromReadyChan 1), (7, FromSpoolChan (Some [13])),
      (8, FromReadyChan 1),
      (10, FromReadyChan 2), (11, FromSpoolChan (Some [20])),
      (12, FromReadyChan 2), (13, FromSpoolChan (Some [21])),
      (14, FromReadyChan 2), (15, FromSpoolChan (Some [22])),
      (16, FromReadyChan 2), (17, FromSpoolChan (Some [23])),
      (18, FromReadyChan 2)]"

text \<open>
  Two endpoints take one spool each: payload 0 (three events) is the head of the queue and
  payload 1 (two events) follows it. Endpoint 2 acknowledges one event of payload 1.
\<close>

definition partialBehindHead :: "(time \<times> input) list" where
  "partialBehindHead =
     [(0, FromReadyChan 1), (0, FromReadyChan 2),
      (1, FromSpoolChan (Some [1, 2, 3])), (2, FromSpoolChan (Some [4, 5])),
      (3, FromResponseChan 2 (AckResponse (1, 1)))]"

section \<open>Evaluating the model\<close>

lemma andThen_simps:
  "andThen None f = None"
  "andThen (Some (Inl e)) f = Some (Inl e)"
  "andThen (Some (Inr x)) f = f x"
  by (simp_all add: andThen_def)

text \<open>The continuation is looked at only once the first part has a value.\<close>

lemma andThen_weak_cong: "m = m' \<Longrightarrow> andThen m f = andThen m' f"
  by simp

lemma chain_unfold:
  "chain nxt n x =
     (if n = 0 then [] else case x of None \<Rightarrow> [] | Some r \<Rightarrow> r # chain nxt (n - 1) (nxt r))"
  by (cases n) (auto split: option.splits)

lemmas model_defs =
  ok_def panic_def returns_def andThen_simps len_def Second_def keepalive_timeout_def
  upd_ep_def upd_pl_def emit_def HasAck_def Complete_def Rollup_def NewPendingPayload_def
  NumPending_def Endpoint_SendPayload_def Endpoint_ProcessAck_def Endpoint_ProcessPong_def
  Endpoint_SendPing_def IsPinging_def failEndpoint_def setTimer_def unlinkTimeout_def
  walkTimeout.simps insertTimeout_def registerTimeout_def appendPayload_def transmit_def
  sendPayload_def walkReady.simps
  addReady_def registerReady_def drainAcks.simps unlinkFull_def ackOrdering_def
  processAck_def processPong_def timeoutPending_def timeoutKeepalive_def
  callTimeoutFunc_def fireHead_def processTimeouts.simps timerFired_def selectable_def
  publishLoop_def afterLoop_def beforeLoop_def Run_def NewPublisher_def readyList_def
  fullList_def timeoutList_def inFlight_def ackedBehindFirst_def idleEndpoint_def
  registrarEffects_def returned_def stateOf_def chain_unfold Let_def

lemmas buffered_defs = timerCase_def expire_def RunBuffered_def

text \<open>The timer case on the expiry of the current arming is the body run on the timer that
  has fired.\<close>

lemma timerFired_timerCase: "timerFired now p = timerCase now (p\<lparr>timeoutTimer := None\<rparr>)"
  by (simp add: timerFired_def timerCase_def)

section \<open>Lists in the store\<close>

lemma headOf_simps [simp]: "headOf [] = None" "headOf (x # xs) = Some x"
  by (simp_all add: headOf_def)

lemma linked_headOf: "linked nxt x xs \<Longrightarrow> x = headOf xs"
  by (cases xs) simp_all

lemma linked_None [simp]: "linked nxt None xs \<longleftrightarrow> xs = []"
  by (cases xs) simp_all

lemma linked_unique: "linked nxt x as \<Longrightarrow> linked nxt x bs \<Longrightarrow> as = bs"
proof (induction as arbitrary: x bs)
  case Nil
  then show ?case by simp
next
  case (Cons a as)
  then show ?case by (cases bs) auto
qed

lemma linked_append:
  "linked nxt x (as @ bs) \<Longrightarrow> linked nxt (headOf bs) bs"
proof (induction as arbitrary: x)
  case Nil
  then show ?case using linked_headOf by fastforce
next
  case (Cons a as)
  then show ?case by auto
qed

lemma linked_not_in_tail:
  assumes "linked nxt (nxt a) as"
  shows "a \<notin> set as"
proof
  assume "a \<in> set as"
  then obtain us vs where split: "as = us @ a # vs"
    by (meson split_list)
  with assms have "linked nxt (Some a) (a # vs)"
    using linked_append [of nxt "nxt a" us "a # vs"] by simp
  then have "linked nxt (nxt a) vs" by simp
  with assms have "as = vs" by (rule linked_unique)
  with split show False by simp
qed

lemma linked_distinct: "linked nxt x as \<Longrightarrow> distinct as"
  by (induction as arbitrary: x) (auto dest: linked_not_in_tail)

lemma linked_upd_notin:
  "a \<notin> set as \<Longrightarrow> linked (nxt(a := v)) x as \<longleftrightarrow> linked nxt x as"
  by (induction as arbitrary: x) auto

lemma backed_upd_notin:
  "a \<notin> set as \<Longrightarrow> backed (prv(a := v)) pr as \<longleftrightarrow> backed prv pr as"
  by (induction as arbitrary: pr) auto

lemma linked_cong:
  "(\<And>a. a \<in> set as \<Longrightarrow> nxt' a = nxt a) \<Longrightarrow> linked nxt' x as \<longleftrightarrow> linked nxt x as"
  by (induction as arbitrary: x) auto

lemma backed_cong:
  "(\<And>a. a \<in> set as \<Longrightarrow> prv' a = prv a) \<Longrightarrow> backed prv' pr as \<longleftrightarrow> backed prv pr as"
  by (induction as arbitrary: pr) auto

text \<open>Linking a new node in behind a non-empty front part.\<close>

lemma linked_insert:
  assumes "linked nxt x (as @ bs)" "as \<noteq> []" "e \<notin> set (as @ bs)"
    and "\<And>a. a \<in> set (as @ bs) \<Longrightarrow> a \<noteq> last as \<Longrightarrow> nxt' a = nxt a"
    and "nxt' (last as) = Some e" "nxt' e = headOf bs"
  shows "linked nxt' x (as @ e # bs)"
  using assms
proof (induction as arbitrary: x)
  case Nil
  then show ?case by simp
next
  case (Cons a as)
  have dist: "distinct ((a # as) @ bs)" using Cons.prems(1) by (rule linked_distinct)
  show ?case
  proof (cases "as = []")
    case True
    have "linked nxt (nxt a) bs" "x = Some a" using Cons.prems(1) True by simp_all
    moreover have "linked nxt' (headOf bs) bs \<longleftrightarrow> linked nxt (headOf bs) bs"
      using Cons.prems(4) True dist by (intro linked_cong) auto
    moreover have "nxt a = headOf bs" using \<open>linked nxt (nxt a) bs\<close> by (rule linked_headOf)
    ultimately show ?thesis using Cons.prems(5,6) True by simp
  next
    case False
    have a_ne: "a \<noteq> last as" using dist False by auto
    have "linked nxt' (nxt a) (as @ e # bs)"
    proof (rule Cons.IH)
      show "linked nxt (nxt a) (as @ bs)" using Cons.prems(1) by simp
      show "as \<noteq> []" by fact
      show "e \<notin> set (as @ bs)" using Cons.prems(3) by simp
      show "\<And>b. b \<in> set (as @ bs) \<Longrightarrow> b \<noteq> last as \<Longrightarrow> nxt' b = nxt b"
        using Cons.prems(4) False by simp
      show "nxt' (last as) = Some e" using Cons.prems(5) False by simp
      show "nxt' e = headOf bs" by fact
    qed
    moreover have "nxt' a = nxt a" using Cons.prems(4) [of a] a_ne False by simp
    moreover have "x = Some a" using Cons.prems(1) by simp
    ultimately show ?thesis by simp
  qed
qed

lemma backed_insert:
  assumes "backed prv pr (as @ bs)" "as \<noteq> []" "distinct (as @ bs)" "e \<notin> set (as @ bs)"
    and "\<And>a. a \<in> set (as @ bs) \<Longrightarrow> Some a \<noteq> headOf bs \<Longrightarrow> prv' a = prv a"
    and "prv' e = Some (last as)" "\<And>b. headOf bs = Some b \<Longrightarrow> prv' b = Some e"
  shows "backed prv' pr (as @ e # bs)"
  using assms
proof (induction as arbitrary: pr)
  case Nil
  then show ?case by simp
next
  case (Cons a as)
  have a_keep: "prv' a = prv a"
    using Cons.prems(3) Cons.prems(5) [of a] by (cases bs) auto
  show ?case
  proof (cases "as = []")
    case True
    have "backed prv' (Some e) bs"
    proof (cases bs)
      case Nil
      then show ?thesis by simp
    next
      case (Cons b bs')
      have "backed prv' (Some b) bs' \<longleftrightarrow> backed prv (Some b) bs'"
        using Cons.prems(3,5) Cons True by (intro backed_cong) auto
      then show ?thesis using Cons.prems(1,7) Cons True by simp
    qed
    then show ?thesis using Cons.prems(1,6) a_keep True by simp
  next
    case False
    have "backed prv' (Some a) (as @ e # bs)"
    proof (rule Cons.IH)
      show "backed prv (Some a) (as @ bs)" using Cons.prems(1) by simp
      show "as \<noteq> []" by fact
      show "distinct (as @ bs)" using Cons.prems(3) by simp
      show "e \<notin> set (as @ bs)" using Cons.prems(4) by simp
      show "\<And>b. b \<in> set (as @ bs) \<Longrightarrow> Some b \<noteq> headOf bs \<Longrightarrow> prv' b = prv b"
        using Cons.prems(5) by simp
      show "prv' e = Some (last as)" using Cons.prems(6) False by simp
      show "\<And>b. headOf bs = Some b \<Longrightarrow> prv' b = Some e" by fact
    qed
    then show ?thesis using Cons.prems(1) a_keep by simp
  qed
qed

lemma linked_mid:
  "linked nxt x (as @ e # bs) \<Longrightarrow> nxt e = headOf bs \<and> linked nxt (headOf bs) bs"
proof (induction as arbitrary: x)
  case Nil
  then have l: "linked nxt (nxt e) bs" by simp
  then have "nxt e = headOf bs" by (rule linked_headOf)
  with l show ?case by simp
next
  case (Cons a as)
  then show ?case by auto
qed

lemma backed_mid:
  "backed prv pr (as @ e # bs) \<Longrightarrow> prv e = (if as = [] then pr else Some (last as))"
  by (induction as arbitrary: pr) auto

text \<open>Taking a node out of the list.\<close>

lemma linked_remove:
  assumes "linked nxt x (as @ e # bs)" "as \<noteq> []"
    and "\<And>a. a \<in> set (as @ bs) \<Longrightarrow> a \<noteq> last as \<Longrightarrow> nxt' a = nxt a"
    and "nxt' (last as) = headOf bs"
  shows "linked nxt' x (as @ bs)"
  using assms
proof (induction as arbitrary: x)
  case Nil
  then show ?case by simp
next
  case (Cons a as)
  have dist: "distinct ((a # as) @ e # bs)" using Cons.prems(1) by (rule linked_distinct)
  show ?case
  proof (cases "as = []")
    case True
    have "linked nxt (headOf bs) bs" using linked_mid [OF Cons.prems(1)] by simp
    moreover have "linked nxt' (headOf bs) bs \<longleftrightarrow> linked nxt (headOf bs) bs"
      using Cons.prems(3) True dist by (intro linked_cong) auto
    ultimately show ?thesis using Cons.prems(1,4) True by simp
  next
    case False
    have a_ne: "a \<noteq> last as" using dist False by auto
    have "linked nxt' (nxt a) (as @ bs)"
    proof (rule Cons.IH)
      show "linked nxt (nxt a) (as @ e # bs)" using Cons.prems(1) by simp
      show "as \<noteq> []" by fact
      show "\<And>b. b \<in> set (as @ bs) \<Longrightarrow> b \<noteq> last as \<Longrightarrow> nxt' b = nxt b"
        using Cons.prems(3) False by simp
      show "nxt' (last as) = headOf bs" using Cons.prems(4) False by simp
    qed
    moreover have "nxt' a = nxt a" using Cons.prems(3) [of a] a_ne False by simp
    moreover have "x = Some a" using Cons.prems(1) by simp
    ultimately show ?thesis by simp
  qed
qed

text \<open>The back pointers of a list behind a new predecessor.\<close>

lemma backed_rehead:
  assumes "backed prv pr bs" "distinct bs"
    and "\<And>a. a \<in> set bs \<Longrightarrow> Some a \<noteq> headOf bs \<Longrightarrow> prv' a = prv a"
    and "\<And>b. headOf bs = Some b \<Longrightarrow> prv' b = pr'"
  shows "backed prv' pr' bs"
proof (cases bs)
  case Nil
  then show ?thesis by simp
next
  case (Cons b bs')
  have "backed prv' (Some b) bs' \<longleftrightarrow> backed prv (Some b) bs'"
    using assms(2,3) Cons by (intro backed_cong) auto
  then show ?thesis using assms(1,4) Cons by simp
qed

lemma backed_remove:
  assumes "backed prv pr (as @ e # bs)" "distinct (as @ e # bs)"
    and "\<And>a. a \<in> set (as @ bs) \<Longrightarrow> Some a \<noteq> headOf bs \<Longrightarrow> prv' a = prv a"
    and "\<And>b. headOf bs = Some b \<Longrightarrow> prv' b = (if as = [] then pr else Some (last as))"
  shows "backed prv' pr (as @ bs)"
  using assms
proof (induction as arbitrary: pr)
  case Nil
  have b: "backed prv (Some e) bs" and d: "distinct bs" using Nil.prems(1,2) by simp_all
  have "backed prv' pr bs"
  proof (rule backed_rehead [OF b d])
    fix a assume "a \<in> set bs" "Some a \<noteq> headOf bs"
    then show "prv' a = prv a" using Nil.prems(3) by simp
  next
    fix c assume "headOf bs = Some c"
    then show "prv' c = pr" using Nil.prems(4) by simp
  qed
  then show ?case by simp
next
  case (Cons a as)
  have a_keep: "prv' a = prv a"
    using Cons.prems(2) Cons.prems(3) [of a] by (cases bs) auto
  have "backed prv' (Some a) (as @ bs)"
  proof (rule Cons.IH)
    show "backed prv (Some a) (as @ e # bs)" using Cons.prems(1) by simp
    show "distinct (as @ e # bs)" using Cons.prems(2) by simp
    show "\<And>b. b \<in> set (as @ bs) \<Longrightarrow> Some b \<noteq> headOf bs \<Longrightarrow> prv' b = prv b"
      using Cons.prems(3) by simp
    show "\<And>b. headOf bs = Some b \<Longrightarrow> prv' b = (if as = [] then Some a else Some (last as))"
      using Cons.prems(4) by simp
  qed
  then show ?case using Cons.prems(1) a_keep by simp
qed

section \<open>Projections of the state updates\<close>

lemma upd_ep_simps [simp]:
  "endpoints (upd_ep r f p) = (endpoints p)(r := f (endpoints p r))"
  "config_Timeout (upd_ep r f p) = config_Timeout p"
  "firstPayload (upd_ep r f p) = firstPayload p"
  "lastPayload (upd_ep r f p) = lastPayload p"
  "numPayloads (upd_ep r f p) = numPayloads p"
  "outOfSync (upd_ep r f p) = outOfSync p"
  "shuttingDown (upd_ep r f p) = shuttingDown p"
  "timeoutTimer (upd_ep r f p) = timeoutTimer p"
  "timeoutHead (upd_ep r f p) = timeoutHead p"
  "readyHead (upd_ep r f p) = readyHead p"
  "fullHead (upd_ep r f p) = fullHead p"
  "ifSpoolChan (upd_ep r f p) = ifSpoolChan p"
  "nextSpool (upd_ep r f p) = nextSpool p"
  "onShutdown (upd_ep r f p) = onShutdown p"
  "payloads (upd_ep r f p) = payloads p"
  "nextRef (upd_ep r f p) = nextRef p"
  "effects (upd_ep r f p) = effects p"
  by (simp_all add: upd_ep_def)

lemma upd_pl_simps [simp]:
  "payloads (upd_pl r f p) = (payloads p)(r := f (payloads p r))"
  "config_Timeout (upd_pl r f p) = config_Timeout p"
  "firstPayload (upd_pl r f p) = firstPayload p"
  "lastPayload (upd_pl r f p) = lastPayload p"
  "numPayloads (upd_pl r f p) = numPayloads p"
  "outOfSync (upd_pl r f p) = outOfSync p"
  "shuttingDown (upd_pl r f p) = shuttingDown p"
  "timeoutTimer (upd_pl r f p) = timeoutTimer p"
  "timeoutHead (upd_pl r f p) = timeoutHead p"
  "readyHead (upd_pl r f p) = readyHead p"
  "fullHead (upd_pl r f p) = fullHead p"
  "ifSpoolChan (upd_pl r f p) = ifSpoolChan p"
  "nextSpool (upd_pl r f p) = nextSpool p"
  "onShutdown (upd_pl r f p) = onShutdown p"
  "endpoints (upd_pl r f p) = endpoints p"
  "nextRef (upd_pl r f p) = nextRef p"
  "effects (upd_pl r f p) = effects p"
  by (simp_all add: upd_pl_def)

lemma emit_simps [simp]:
  "effects (emit x p) = effects p @ [x]"
  "config_Timeout (emit x p) = config_Timeout p"
  "firstPayload (emit x p) = firstPayload p"
  "lastPayload (emit x p) = lastPayload p"
  "numPayloads (emit x p) = numPayloads p"
  "outOfSync (emit x p) = outOfSync p"
  "shuttingDown (emit x p) = shuttingDown p"
  "timeoutTimer (emit x p) = timeoutTimer p"
  "timeoutHead (emit x p) = timeoutHead p"
  "readyHead (emit x p) = readyHead p"
  "fullHead (emit x p) = fullHead p"
  "ifSpoolChan (emit x p) = ifSpoolChan p"
  "nextSpool (emit x p) = nextSpool p"
  "onShutdown (emit x p) = onShutdown p"
  "endpoints (emit x p) = endpoints p"
  "payloads (emit x p) = payloads p"
  "nextRef (emit x p) = nextRef p"
  by (simp_all add: emit_def)

lemma result_simps [simp]:
  "ok x \<noteq> None" "ok x = Some (Inr y) \<longleftrightarrow> x = y" "ok x \<noteq> Some (Inl f)"
  "panic f \<noteq> None" "panic f \<noteq> Some (Inr y)" "panic f = Some (Inl g) \<longleftrightarrow> f = g"
  "andThen None k = None"
  "andThen (Some (Inl f)) k = Some (Inl f)"
  "andThen (Some (Inr x)) k = k x"
  "andThen (ok x) k = k x"
  "andThen (panic f) k = panic f"
  "returns None = None" "returns (Some x) = ok x"
  by (simp_all add: ok_def panic_def andThen_def returns_def)

lemma andThen_returns:
  "andThen m k = Some (Inr y) \<longleftrightarrow> (\<exists>x. m = Some (Inr x) \<and> k x = Some (Inr y))"
  by (auto simp: andThen_def split: option.splits sum.splits)

section \<open>The timeout list\<close>

lemma walkTimeout_linked:
  assumes "linked (\<lambda>r. NextTimeout (eps r)) y ys"
  shows "walkTimeout eps due prev y =
           Some (last (prev # takeWhile (\<lambda>x. \<not> due < TimeoutDue (eps x)) ys),
                 headOf (dropWhile (\<lambda>x. \<not> due < TimeoutDue (eps x)) ys))"
  using assms
proof (induction ys arbitrary: prev y)
  case Nil
  then show ?case by (subst walkTimeout.simps) simp
next
  case (Cons a ys)
  then have y: "y = Some a" and rest: "linked (\<lambda>r. NextTimeout (eps r)) (NextTimeout (eps a)) ys"
    by simp_all
  show ?case
    by (subst walkTimeout.simps) (simp add: y Cons.IH [OF rest])
qed

lemma sansTimeout_fields:
  assumes "sansTimeout a = sansTimeout b"
  shows "Ready a = Ready b" "Full a = Full b" "NextReady a = NextReady b"
    "NextFull a = NextFull b" "PrevFull a = PrevFull b" "pending a = pending b"
    "pinging a = pinging b" "transportOk a = transportOk b"
proof -
  have "Ready (sansTimeout a) = Ready (sansTimeout b)" "Full (sansTimeout a) = Full (sansTimeout b)"
    "NextReady (sansTimeout a) = NextReady (sansTimeout b)"
    "NextFull (sansTimeout a) = NextFull (sansTimeout b)"
    "PrevFull (sansTimeout a) = PrevFull (sansTimeout b)"
    "pending (sansTimeout a) = pending (sansTimeout b)"
    "pinging (sansTimeout a) = pinging (sansTimeout b)"
    "transportOk (sansTimeout a) = transportOk (sansTimeout b)"
    using assms by simp_all
  then show "Ready a = Ready b" "Full a = Full b" "NextReady a = NextReady b"
    "NextFull a = NextFull b" "PrevFull a = PrevFull b" "pending a = pending b"
    "pinging a = pinging b" "transportOk a = transportOk b"
    by (simp_all add: sansTimeout_def)
qed

lemma sansTimeout_upd [simp]:
  "sansTimeout (e\<lparr>NextTimeout := a\<rparr>) = sansTimeout e"
  "sansTimeout (e\<lparr>PrevTimeout := b\<rparr>) = sansTimeout e"
  "sansTimeout (e\<lparr>TimeoutFunc := c\<rparr>) = sansTimeout e"
  "sansTimeout (e\<lparr>TimeoutDue := d\<rparr>) = sansTimeout e"
  by (simp_all add: sansTimeout_def)

lemma sansTimer_fields:
  assumes "sansTimer p' = sansTimer p"
  shows "config_Timeout p' = config_Timeout p" "firstPayload p' = firstPayload p"
    "lastPayload p' = lastPayload p" "numPayloads p' = numPayloads p"
    "outOfSync p' = outOfSync p" "shuttingDown p' = shuttingDown p"
    "readyHead p' = readyHead p" "fullHead p' = fullHead p" "ifSpoolChan p' = ifSpoolChan p"
    "nextSpool p' = nextSpool p" "onShutdown p' = onShutdown p" "payloads p' = payloads p"
    "nextRef p' = nextRef p" "sansTimeout (endpoints p' r) = sansTimeout (endpoints p r)"
proof -
  have "config_Timeout (sansTimer p') = config_Timeout (sansTimer p)"
    "firstPayload (sansTimer p') = firstPayload (sansTimer p)"
    "lastPayload (sansTimer p') = lastPayload (sansTimer p)"
    "numPayloads (sansTimer p') = numPayloads (sansTimer p)"
    "outOfSync (sansTimer p') = outOfSync (sansTimer p)"
    "shuttingDown (sansTimer p') = shuttingDown (sansTimer p)"
    "readyHead (sansTimer p') = readyHead (sansTimer p)"
    "fullHead (sansTimer p') = fullHead (sansTimer p)"
    "ifSpoolChan (sansTimer p') = ifSpoolChan (sansTimer p)"
    "nextSpool (sansTimer p') = nextSpool (sansTimer p)"
    "onShutdown (sansTimer p') = onShutdown (sansTimer p)"
    "payloads (sansTimer p') = payloads (sansTimer p)"
    "nextRef (sansTimer p') = nextRef (sansTimer p)"
    "endpoints (sansTimer p') r = endpoints (sansTimer p) r"
    using assms by simp_all
  then show "config_Timeout p' = config_Timeout p" "firstPayload p' = firstPayload p"
    "lastPayload p' = lastPayload p" "numPayloads p' = numPayloads p"
    "outOfSync p' = outOfSync p" "shuttingDown p' = shuttingDown p"
    "readyHead p' = readyHead p" "fullHead p' = fullHead p" "ifSpoolChan p' = ifSpoolChan p"
    "nextSpool p' = nextSpool p" "onShutdown p' = onShutdown p" "payloads p' = payloads p"
    "nextRef p' = nextRef p" "sansTimeout (endpoints p' r) = sansTimeout (endpoints p r)"
    by (simp_all add: sansTimer_def)
qed

lemma sansTimer_simps [simp]:
  "sansTimer (p\<lparr>timeoutHead := h\<rparr>) = sansTimer p"
  "sansTimer (p\<lparr>timeoutTimer := t\<rparr>) = sansTimer p"
  "sansTimer (emit x p) = sansTimer p"
  by (simp_all add: sansTimer_def emit_def)

lemma sansTimer_upd_ep:
  "sansTimeout (f (endpoints p r)) = sansTimeout (endpoints p r) \<Longrightarrow>
   sansTimer (upd_ep r f p) = sansTimer p"
  by (auto simp: sansTimer_def upd_ep_def fun_eq_iff)

text \<open>\<^verbatim>\<open>registerTimeout\<close> writes the timeout list, the timer and nothing else, whatever the
  state.\<close>

lemma unlinkTimeout_frame: "sansTimer (fst (unlinkTimeout e p)) = sansTimer p"
  by (simp add: unlinkTimeout_def Let_def sansTimer_upd_ep split: option.splits)

lemma unlinkTimeout_effects:
  "effects (fst (unlinkTimeout e p)) = effects p"
  "timeoutTimer (fst (unlinkTimeout e p)) = timeoutTimer p"
  by (simp_all add: unlinkTimeout_def Let_def split: option.splits)

lemma setTimer_frame:
  "setTimer p = Some (Inr p') \<Longrightarrow> sansTimer p' = sansTimer p"
  by (auto simp: setTimer_def split: option.splits)

lemma insertTimeout_frame:
  assumes "insertTimeout e due f b p = Some (Inr p')"
  shows "sansTimer p' = sansTimer p"
  using assms
  by (auto simp: insertTimeout_def Let_def andThen_returns sansTimer_upd_ep
      dest!: setTimer_frame split: if_splits option.splits prod.splits)

lemma registerTimeout_frame:
  assumes "registerTimeout e due f p = Some (Inr p')"
  shows "sansTimer p' = sansTimer p"
  using assms insertTimeout_frame unlinkTimeout_frame
  by (metis registerTimeout_def)

lemma timeouts_distinct: "timeouts p pr xs \<Longrightarrow> distinct xs"
  by (auto simp: timeouts_def dest: linked_distinct)

lemma timeouts_head: "timeouts p pr xs \<Longrightarrow> timeoutHead p = headOf xs"
  by (auto simp: timeouts_def dest: linked_headOf)

lemma timeouts_unique: "timeouts p pr xs \<Longrightarrow> timeouts p pr' ys \<Longrightarrow> xs = ys"
  by (auto simp: timeouts_def dest: linked_unique)

text \<open>Lines 395-406 take a registered endpoint out of a well-formed list.\<close>

lemma unlinkTimeout_spec:
  assumes wf: "timeouts p None (as @ e # bs)"
  defines "p1 \<equiv> fst (unlinkTimeout e p)"
  shows "snd (unlinkTimeout e p) = (as = [])"
    and "linked (\<lambda>r. NextTimeout (endpoints p1 r)) (timeoutHead p1) (as @ bs)"
    and "backed (\<lambda>r. PrevTimeout (endpoints p1 r)) None (as @ bs)"
    and "TimeoutFunc (endpoints p1 x) = TimeoutFunc (endpoints p x)"
    and "TimeoutDue (endpoints p1 x) = TimeoutDue (endpoints p x)"
proof -
  let ?N = "\<lambda>r. NextTimeout (endpoints p r)" and ?P = "\<lambda>r. PrevTimeout (endpoints p r)"
  have lk: "linked ?N (timeoutHead p) (as @ e # bs)" and bk: "backed ?P None (as @ e # bs)"
    and reg: "TimeoutFunc (endpoints p e) \<noteq> None"
    using wf by (auto simp: timeouts_def)
  have dist: "distinct (as @ e # bs)" using wf by (rule timeouts_distinct)
  have Ne: "?N e = headOf bs" and lbs: "linked ?N (headOf bs) bs"
    using linked_mid [OF lk] by simp_all
  have Pe: "?P e = (if as = [] then None else Some (last as))"
    using backed_mid [OF bk] by simp
  have hd: "timeoutHead p = headOf (as @ e # bs)" using lk by (rule linked_headOf)
  show "snd (unlinkTimeout e p) = (as = [])"
    using reg Pe by (auto simp: unlinkTimeout_def Let_def split: option.splits)
  show "TimeoutFunc (endpoints p1 x) = TimeoutFunc (endpoints p x)"
    by (auto simp: p1_def unlinkTimeout_def Let_def split: option.splits)
  show "TimeoutDue (endpoints p1 x) = TimeoutDue (endpoints p x)"
    by (auto simp: p1_def unlinkTimeout_def Let_def split: option.splits)
  show "linked (\<lambda>r. NextTimeout (endpoints p1 r)) (timeoutHead p1) (as @ bs)"
  proof (cases "as = []")
    case True
    have "timeoutHead p1 = headOf bs"
      using reg Pe Ne True by (auto simp: p1_def unlinkTimeout_def Let_def split: option.splits)
    moreover have "linked (\<lambda>r. NextTimeout (endpoints p1 r)) (headOf bs) bs \<longleftrightarrow> linked ?N (headOf bs) bs"
      using reg Pe Ne True
      by (intro linked_cong) (auto simp: p1_def unlinkTimeout_def Let_def split: option.splits)
    ultimately show ?thesis using lbs True by simp
  next
    case False
    then have q: "last as \<in> set as" "last as \<noteq> e" using dist by auto
    have h1: "timeoutHead p1 = timeoutHead p"
      using reg Pe False by (auto simp: p1_def unlinkTimeout_def Let_def split: option.splits)
    show ?thesis unfolding h1
    proof (rule linked_remove [OF lk False])
      fix a assume "a \<in> set (as @ bs)" "a \<noteq> last as"
      then show "NextTimeout (endpoints p1 a) = NextTimeout (endpoints p a)"
        using reg Pe False
        by (auto simp: p1_def unlinkTimeout_def Let_def split: option.splits)
    next
      show "NextTimeout (endpoints p1 (last as)) = headOf bs"
        using reg Pe Ne False q dist
        by (cases bs) (auto simp: p1_def unlinkTimeout_def Let_def split: option.splits)
    qed
  qed
  show "backed (\<lambda>r. PrevTimeout (endpoints p1 r)) None (as @ bs)"
  proof (rule backed_remove [OF bk dist])
    fix a assume "a \<in> set (as @ bs)" "Some a \<noteq> headOf bs"
    then show "PrevTimeout (endpoints p1 a) = PrevTimeout (endpoints p a)"
      using reg Pe Ne
      by (auto simp: p1_def unlinkTimeout_def Let_def split: option.splits if_splits)
  next
    fix b assume "headOf bs = Some b"
    then show "PrevTimeout (endpoints p1 b) = (if as = [] then None else Some (last as))"
      using reg Pe Ne dist
      by (cases bs) (auto simp: p1_def unlinkTimeout_def Let_def split: option.splits if_splits)
  qed
qed

text \<open>Lines 408-422: the new endpoint becomes the head.\<close>

lemma insertTimeout_head:
  assumes lk: "linked (\<lambda>r. NextTimeout (endpoints p r)) (timeoutHead p) ys"
    and bk: "backed (\<lambda>r. PrevTimeout (endpoints p r)) pr ys"
    and new: "e \<notin> set ys"
    and first: "ys = [] \<or> due < TimeoutDue (endpoints p (hd ys))"
  shows "\<exists>p'. insertTimeout e due f b p = Some (Inr p') \<and>
           linked (\<lambda>r. NextTimeout (endpoints p' r)) (timeoutHead p') (e # ys) \<and>
           backed (\<lambda>r. PrevTimeout (endpoints p' r)) None (e # ys) \<and>
           (\<forall>x. TimeoutFunc (endpoints p' x) = (if x = e then Some f else TimeoutFunc (endpoints p x))) \<and>
           (\<forall>x. TimeoutDue (endpoints p' x) = (if x = e then due else TimeoutDue (endpoints p x))) \<and>
           timeoutTimer p' = Some due \<and> effects p' = effects p @ [TimerReset due]"
proof -
  have hd: "timeoutHead p = headOf ys" using lk by (rule linked_headOf)
  have dist: "distinct ys" using lk by (rule linked_distinct)
  define p' where "p' = emit (TimerReset due)
      ((case headOf ys of None \<Rightarrow> (\<lambda>q. q) | Some n \<Rightarrow> upd_ep n (\<lambda>x. x\<lparr>PrevTimeout := Some e\<rparr>))
        (upd_ep e (\<lambda>x. x\<lparr>PrevTimeout := None, NextTimeout := headOf ys\<rparr>)
          ((upd_ep e (\<lambda>x. x\<lparr>TimeoutFunc := Some f, TimeoutDue := due\<rparr>) p)
             \<lparr>timeoutHead := Some e\<rparr>)))\<lparr>timeoutTimer := Some due\<rparr>"
  have run: "insertTimeout e due f b p = Some (Inr p')"
    using first new hd
    by (cases ys) (auto simp: insertTimeout_def setTimer_def Let_def p'_def ok_def emit_def upd_ep_def)
  have N: "\<And>a. a \<in> set ys \<Longrightarrow> NextTimeout (endpoints p' a) = NextTimeout (endpoints p a)"
    using new by (cases ys) (auto simp: p'_def)
  have Ne: "NextTimeout (endpoints p' e) = headOf ys"
    using new by (cases ys) (auto simp: p'_def)
  have "linked (\<lambda>r. NextTimeout (endpoints p' r)) (headOf ys) ys \<longleftrightarrow>
        linked (\<lambda>r. NextTimeout (endpoints p r)) (headOf ys) ys"
    using N by (intro linked_cong) auto
  moreover have "timeoutHead p' = Some e"
    by (cases ys) (auto simp: p'_def)
  ultimately have l': "linked (\<lambda>r. NextTimeout (endpoints p' r)) (timeoutHead p') (e # ys)"
    using lk hd Ne by simp
  have "backed (\<lambda>r. PrevTimeout (endpoints p' r)) (Some e) ys"
  proof (rule backed_rehead [OF bk dist])
    fix a assume "a \<in> set ys" "Some a \<noteq> headOf ys"
    then show "PrevTimeout (endpoints p' a) = PrevTimeout (endpoints p a)"
      using new by (cases ys) (auto simp: p'_def)
  next
    fix c assume "headOf ys = Some c"
    then show "PrevTimeout (endpoints p' c) = Some e"
      using new by (cases ys) (auto simp: p'_def)
  qed
  moreover have "PrevTimeout (endpoints p' e) = None"
    using new by (cases ys) (auto simp: p'_def)
  ultimately have b': "backed (\<lambda>r. PrevTimeout (endpoints p' r)) None (e # ys)" by simp
  have f': "\<forall>x. TimeoutFunc (endpoints p' x) = (if x = e then Some f else TimeoutFunc (endpoints p x))"
    by (cases ys) (auto simp: p'_def)
  have d': "\<forall>x. TimeoutDue (endpoints p' x) = (if x = e then due else TimeoutDue (endpoints p x))"
    by (cases ys) (auto simp: p'_def)
  have "timeoutTimer p' = Some due \<and> effects p' = effects p @ [TimerReset due]"
    by (cases ys) (auto simp: p'_def)
  with run l' b' f' d' show ?thesis by blast
qed

text \<open>Lines 425-442: the new endpoint goes behind the nodes that are not due after it.\<close>

lemma insertTimeout_mid:
  assumes lk: "linked (\<lambda>r. NextTimeout (endpoints p r)) (timeoutHead p) ys"
    and bk: "backed (\<lambda>r. PrevTimeout (endpoints p r)) pr ys"
    and new: "e \<notin> set ys"
    and later: "ys \<noteq> []" "\<not> due < TimeoutDue (endpoints p (hd ys))"
  defines "front \<equiv> takeWhile (\<lambda>x. \<not> due < TimeoutDue (endpoints p x)) ys"
    and "rear \<equiv> dropWhile (\<lambda>x. \<not> due < TimeoutDue (endpoints p x)) ys"
  shows "\<exists>p'. insertTimeout e due f b p = Some (Inr p') \<and>
           timeoutHead p' = timeoutHead p \<and>
           linked (\<lambda>r. NextTimeout (endpoints p' r)) (timeoutHead p') (front @ e # rear) \<and>
           backed (\<lambda>r. PrevTimeout (endpoints p' r)) pr (front @ e # rear) \<and>
           (\<forall>x. TimeoutFunc (endpoints p' x) = (if x = e then Some f else TimeoutFunc (endpoints p x))) \<and>
           (\<forall>x. TimeoutDue (endpoints p' x) = (if x = e then due else TimeoutDue (endpoints p x))) \<and>
           timeoutTimer p' = (if b then Some (TimeoutDue (endpoints p (hd ys))) else timeoutTimer p) \<and>
           effects p' = effects p @ (if b then [TimerReset (TimeoutDue (endpoints p (hd ys)))] else [])"
proof -
  obtain y ys' where ys: "ys = y # ys'" using later(1) by (cases ys) auto
  have hd: "timeoutHead p = Some y" using lk ys by simp
  have dist: "distinct ys" using lk by (rule linked_distinct)
  have split: "ys = front @ rear" by (simp add: front_def rear_def)
  have front_eq: "front = y # takeWhile (\<lambda>x. \<not> due < TimeoutDue (endpoints p x)) ys'"
    and rear_eq: "rear = dropWhile (\<lambda>x. \<not> due < TimeoutDue (endpoints p x)) ys'"
    using later(2) ys by (simp_all add: front_def rear_def)
  have fne: "front \<noteq> []" using front_eq by simp
  have ye: "y \<noteq> e" using new ys by auto
  define p0 where "p0 = upd_ep e (\<lambda>x. x\<lparr>TimeoutFunc := Some f, TimeoutDue := due\<rparr>) p"
  have same: "\<And>a. a \<in> set ys \<Longrightarrow> endpoints p0 a = endpoints p a"
    using new by (auto simp: p0_def)
  have "linked (\<lambda>r. NextTimeout (endpoints p0 r)) (NextTimeout (endpoints p0 y)) ys'"
  proof -
    have "linked (\<lambda>r. NextTimeout (endpoints p0 r)) (timeoutHead p) ys \<longleftrightarrow>
          linked (\<lambda>r. NextTimeout (endpoints p r)) (timeoutHead p) ys"
      using same by (intro linked_cong) simp
    then show ?thesis using lk ys by simp
  qed
  then have "walkTimeout (endpoints p0) due y (NextTimeout (endpoints p0 y)) =
      Some (last (y # takeWhile (\<lambda>x. \<not> due < TimeoutDue (endpoints p0 x)) ys'),
            headOf (dropWhile (\<lambda>x. \<not> due < TimeoutDue (endpoints p0 x)) ys'))"
    by (rule walkTimeout_linked)
  moreover have "takeWhile (\<lambda>x. \<not> due < TimeoutDue (endpoints p0 x)) ys' =
      takeWhile (\<lambda>x. \<not> due < TimeoutDue (endpoints p x)) ys'"
    using same ys by (intro takeWhile_cong) auto
  moreover have "dropWhile (\<lambda>x. \<not> due < TimeoutDue (endpoints p0 x)) ys' =
      dropWhile (\<lambda>x. \<not> due < TimeoutDue (endpoints p x)) ys'"
    using same ys by (intro dropWhile_cong) auto
  ultimately have walk: "walkTimeout (endpoints p0) due y (NextTimeout (endpoints p0 y)) =
      Some (last front, headOf rear)"
    using front_eq rear_eq by simp
  define p3 where "p3 =
      (case headOf rear of None \<Rightarrow> (\<lambda>q. q) | Some n \<Rightarrow> upd_ep n (\<lambda>x. x\<lparr>PrevTimeout := Some e\<rparr>))
        (upd_ep e (\<lambda>x. x\<lparr>PrevTimeout := Some (last front), NextTimeout := headOf rear\<rparr>)
          (upd_ep (last front) (\<lambda>x. x\<lparr>NextTimeout := Some e\<rparr>) p0))"
  define p' where "p' = (if b then emit (TimerReset (TimeoutDue (endpoints p y)))
      (p3\<lparr>timeoutTimer := Some (TimeoutDue (endpoints p y))\<rparr>) else p3)"
  have "last front \<in> set front" using fne by simp
  then have lf: "last front \<in> set ys" "last front \<noteq> e"
    using split new by auto
  have hb: "\<And>n. headOf rear = Some n \<Longrightarrow> n \<in> set ys \<and> n \<noteq> e \<and> n \<noteq> last front"
    using split dist fne new by (cases rear) auto
  have h3: "timeoutHead p3 = Some y"
    using hd by (auto simp: p3_def p0_def split: option.splits)
  have due3: "TimeoutDue (endpoints p3 y) = TimeoutDue (endpoints p y)"
    using ye by (auto simp: p3_def p0_def split: option.splits)
  have h0: "timeoutHead p0 = Some y" and due0: "TimeoutDue (endpoints p0 y) = TimeoutDue (endpoints p y)"
    using hd ye by (simp_all add: p0_def)
  have run: "insertTimeout e due f b p = Some (Inr p')"
    unfolding insertTimeout_def Let_def p0_def [symmetric]
    using later(2) ys h0 due0 walk h3 due3
    by (cases "headOf rear")
       (simp_all add: p3_def p'_def setTimer_def ok_def)
  have hp': "timeoutHead p' = timeoutHead p"
    using h3 hd by (simp add: p'_def)
  have eps': "endpoints p' = endpoints p3" by (simp add: p'_def)
  have l': "linked (\<lambda>r. NextTimeout (endpoints p' r)) (timeoutHead p') (front @ e # rear)"
    unfolding hp' eps'
  proof (rule linked_insert [OF lk [unfolded split] fne])
    show "e \<notin> set (front @ rear)" using new split by simp
  next
    fix a assume "a \<in> set (front @ rear)" "a \<noteq> last front"
    then show "NextTimeout (endpoints p3 a) = NextTimeout (endpoints p a)"
      using new split by (auto simp: p3_def p0_def split: option.splits)
  next
    show "NextTimeout (endpoints p3 (last front)) = Some e"
      using lf hb by (auto simp: p3_def p0_def split: option.splits)
  next
    show "NextTimeout (endpoints p3 e) = headOf rear"
      using lf hb by (auto simp: p3_def p0_def split: option.splits)
  qed
  have b': "backed (\<lambda>r. PrevTimeout (endpoints p' r)) pr (front @ e # rear)"
    unfolding eps'
  proof (rule backed_insert [OF bk [unfolded split] fne])
    show "distinct (front @ rear)" using dist split by simp
    show "e \<notin> set (front @ rear)" using new split by simp
  next
    fix a assume "a \<in> set (front @ rear)" "Some a \<noteq> headOf rear"
    then show "PrevTimeout (endpoints p3 a) = PrevTimeout (endpoints p a)"
      using new split by (auto simp: p3_def p0_def split: option.splits)
  next
    show "PrevTimeout (endpoints p3 e) = Some (last front)"
      using lf hb by (auto simp: p3_def p0_def split: option.splits)
  next
    fix c assume "headOf rear = Some c"
    then show "PrevTimeout (endpoints p3 c) = Some e"
      by (auto simp: p3_def p0_def split: option.splits)
  qed
  have f': "\<forall>x. TimeoutFunc (endpoints p' x) = (if x = e then Some f else TimeoutFunc (endpoints p x))"
    unfolding eps' by (auto simp: p3_def p0_def split: option.splits)
  have d': "\<forall>x. TimeoutDue (endpoints p' x) = (if x = e then due else TimeoutDue (endpoints p x))"
    unfolding eps' by (auto simp: p3_def p0_def split: option.splits)
  have t': "timeoutTimer p' = (if b then Some (TimeoutDue (endpoints p (hd ys))) else timeoutTimer p)"
    using ys by (auto simp: p'_def p3_def p0_def split: option.splits)
  have e': "effects p' = effects p @ (if b then [TimerReset (TimeoutDue (endpoints p (hd ys)))] else [])"
    using ys by (auto simp: p'_def p3_def p0_def split: option.splits)
  from run hp' l' b' f' d' t' e' show ?thesis by blast
qed


lemma set_insertDue [simp]: "set (insertDue dueOf due e xs) = insert e (set xs)"
proof -
  let ?P = "\<lambda>x. \<not> due < dueOf x" and ?zs = "removeAll e xs"
  have "set (takeWhile ?P ?zs) \<union> set (dropWhile ?P ?zs) = set ?zs"
    by (metis set_append takeWhile_dropWhile_id)
  then show ?thesis by (auto simp: insertDue_def)
qed

lemma registerTimeout_spec:
  fixes due :: time and f :: TimeoutFunc
  assumes wf: "timeouts p pr xs" and inside: "e \<in> set xs \<Longrightarrow> pr = None"
  defines "ys \<equiv> insertDue (\<lambda>x. TimeoutDue (endpoints p x)) due e xs"
  defines "reset \<equiv> timeoutHead p = Some e \<or> hd ys = e"
  shows "\<exists>p'. registerTimeout e due f p = Some (Inr p') \<and>
           timeouts p' (if hd ys = e then None else pr) ys \<and>
           (\<forall>x. TimeoutFunc (endpoints p' x) = (if x = e then Some f else TimeoutFunc (endpoints p x))) \<and>
           (\<forall>x. TimeoutDue (endpoints p' x) = (if x = e then due else TimeoutDue (endpoints p x))) \<and>
           timeoutTimer p' = (if reset then Some (TimeoutDue (endpoints p' (hd ys))) else timeoutTimer p) \<and>
           effects p' = effects p @ (if reset then [TimerReset (TimeoutDue (endpoints p' (hd ys)))] else [])"
proof -
  let ?due = "\<lambda>x. TimeoutDue (endpoints p x)"
  define p1 where "p1 = fst (unlinkTimeout e p)"
  define b where "b = snd (unlinkTimeout e p)"
  define zs where "zs = removeAll e xs"
  have dist: "distinct xs" using wf by (rule timeouts_distinct)
  have hx: "timeoutHead p = headOf xs" using wf by (rule timeouts_head)
  have reg: "registerTimeout e due f p = insertTimeout e due f b p1"
    by (simp add: registerTimeout_def Let_def p1_def b_def)
  have unl: "linked (\<lambda>r. NextTimeout (endpoints p1 r)) (timeoutHead p1) zs \<and>
      backed (\<lambda>r. PrevTimeout (endpoints p1 r)) pr zs \<and>
      (\<forall>x. TimeoutFunc (endpoints p1 x) = TimeoutFunc (endpoints p x)) \<and>
      (\<forall>x. TimeoutDue (endpoints p1 x) = TimeoutDue (endpoints p x)) \<and>
      b = (timeoutHead p = Some e) \<and> timeoutTimer p1 = timeoutTimer p \<and> effects p1 = effects p"
  proof (cases "e \<in> set xs")
    case True
    then obtain as bs where xs: "xs = as @ e # bs" by (meson split_list)
    have pr: "pr = None" using True by (rule inside)
    have z: "zs = as @ bs" using dist xs by (simp add: zs_def)
    have "(as = []) = (timeoutHead p = Some e)"
      using hx xs dist by (cases as) auto
    then show ?thesis
      using unlinkTimeout_spec [OF wf [unfolded xs pr]] unlinkTimeout_effects [of e p]
      by (simp add: p1_def b_def z pr)
  next
    case False
    then have none: "TimeoutFunc (endpoints p e) = None" using wf by (auto simp: timeouts_def)
    have "unlinkTimeout e p = (p, False)" by (simp add: unlinkTimeout_def none)
    moreover have "zs = xs" using False by (simp add: zs_def)
    moreover have "timeoutHead p \<noteq> Some e" using hx False by (cases xs) auto
    ultimately show ?thesis using wf by (simp add: p1_def b_def timeouts_def)
  qed
  have new: "e \<notin> set zs" by (simp add: zs_def)
  have dues: "\<And>x. TimeoutDue (endpoints p1 x) = TimeoutDue (endpoints p x)" using unl by auto
  have regset: "\<forall>x. x \<in> set xs \<longleftrightarrow> TimeoutFunc (endpoints p x) \<noteq> None"
    using wf by (simp add: timeouts_def)
  show ?thesis
  proof (cases "zs = [] \<or> due < TimeoutDue (endpoints p1 (hd zs))")
    case True
    then have ys: "ys = e # zs"
      using unl by (cases zs) (auto simp: ys_def insertDue_def zs_def [symmetric])
    obtain p' where p': "insertTimeout e due f b p1 = Some (Inr p')"
      "linked (\<lambda>r. NextTimeout (endpoints p' r)) (timeoutHead p') (e # zs)"
      "backed (\<lambda>r. PrevTimeout (endpoints p' r)) None (e # zs)"
      "\<forall>x. TimeoutFunc (endpoints p' x) = (if x = e then Some f else TimeoutFunc (endpoints p1 x))"
      "\<forall>x. TimeoutDue (endpoints p' x) = (if x = e then due else TimeoutDue (endpoints p1 x))"
      "timeoutTimer p' = Some due" "effects p' = effects p1 @ [TimerReset due]"
      using insertTimeout_head [of p1 zs pr e due f b] unl new True by blast
    have "timeouts p' None ys"
      using p'(2,3,4) unl regset by (auto simp: timeouts_def ys zs_def)
    then show ?thesis
      using p' unl reg by (auto simp: ys reset_def)
  next
    case False
    then have zne: "zs \<noteq> []" and later: "\<not> due < TimeoutDue (endpoints p1 (hd zs))" by auto
    have ys: "ys = takeWhile (\<lambda>x. \<not> due < TimeoutDue (endpoints p1 x)) zs @ e #
        dropWhile (\<lambda>x. \<not> due < TimeoutDue (endpoints p1 x)) zs"
      by (simp add: ys_def insertDue_def zs_def dues)
    have hdys: "hd ys = hd zs" "hd zs \<noteq> e"
      using zne later new by (cases zs; auto simp: ys)+
    obtain p' where p': "insertTimeout e due f b p1 = Some (Inr p')"
      "timeoutHead p' = timeoutHead p1"
      "linked (\<lambda>r. NextTimeout (endpoints p' r)) (timeoutHead p') ys"
      "backed (\<lambda>r. PrevTimeout (endpoints p' r)) pr ys"
      "\<forall>x. TimeoutFunc (endpoints p' x) = (if x = e then Some f else TimeoutFunc (endpoints p1 x))"
      "\<forall>x. TimeoutDue (endpoints p' x) = (if x = e then due else TimeoutDue (endpoints p1 x))"
      "timeoutTimer p' = (if b then Some (TimeoutDue (endpoints p1 (hd zs))) else timeoutTimer p1)"
      "effects p' = effects p1 @ (if b then [TimerReset (TimeoutDue (endpoints p1 (hd zs)))] else [])"
      using insertTimeout_mid [of p1 zs pr e due f b] unl new zne later unfolding ys by blast
    have "timeouts p' pr ys"
      using p'(3,4,5) unl regset by (auto simp: timeouts_def ys_def zs_def)
    then show ?thesis
      using p' unl reg hdys by (auto simp: reset_def)
  qed
qed

lemma sorted_between:
  fixes f :: "'a \<Rightarrow> time"
  assumes "sorted (map f as)" "sorted (map f bs)"
    and "\<forall>x\<in>set as. f x \<le> d" "\<forall>y\<in>set bs. d < f y"
  shows "sorted (map f as @ d # map f bs)"
  using assms by (fastforce simp: sorted_append)

lemma sorted_insertDue:
  assumes "sorted (map dueOf xs)"
  shows "sorted (map (dueOf(e := due)) (insertDue dueOf due e xs))"
proof -
  let ?P = "\<lambda>x. \<not> due < dueOf x" and ?zs = "removeAll e xs"
  let ?d = "dueOf(e := due)"
  have zs: "sorted (map dueOf ?zs)"
    using assms by (simp add: removeAll_filter_not_eq sorted_filter)
  have same: "\<And>x. x \<in> set ?zs \<Longrightarrow> ?d x = dueOf x" by auto
  have split: "?zs = takeWhile ?P ?zs @ dropWhile ?P ?zs" by simp
  have front: "\<And>x. x \<in> set (takeWhile ?P ?zs) \<Longrightarrow> dueOf x \<le> due"
    by (auto dest: set_takeWhileD)
  have both: "sorted (map dueOf (takeWhile ?P ?zs) @ map dueOf (dropWhile ?P ?zs))"
    by (metis zs map_append takeWhile_dropWhile_id)
  then have sf: "sorted (map dueOf (takeWhile ?P ?zs))"
    and sr: "sorted (map dueOf (dropWhile ?P ?zs))"
    by (simp_all add: sorted_append)
  have rear: "\<And>x. x \<in> set (dropWhile ?P ?zs) \<Longrightarrow> due < dueOf x"
  proof -
    fix x assume x: "x \<in> set (dropWhile ?P ?zs)"
    then obtain y ys where d: "dropWhile ?P ?zs = y # ys" by (cases "dropWhile ?P ?zs") auto
    then have "due < dueOf y" by (simp add: dropWhile_eq_Cons_conv)
    moreover have "sorted (map dueOf (y # ys))" using sr d by simp
    ultimately show "due < dueOf x" using x d by auto
  qed
  have mf: "map ?d (takeWhile ?P ?zs) = map dueOf (takeWhile ?P ?zs)"
    and mr: "map ?d (dropWhile ?P ?zs) = map dueOf (dropWhile ?P ?zs)"
    using same by (auto dest: set_takeWhileD set_dropWhileD)
  have "sorted (map dueOf (takeWhile ?P ?zs) @ due # map dueOf (dropWhile ?P ?zs))"
    using sf sr
  proof (rule sorted_between)
    show "\<forall>x\<in>set (takeWhile ?P ?zs). dueOf x \<le> due" using front by blast
    show "\<forall>y\<in>set (dropWhile ?P ?zs). due < dueOf y" using rear by blast
  qed
  then show ?thesis
    by (simp add: insertDue_def mf mr)
qed

lemma timeouts_cong:
  assumes "timeoutHead p' = timeoutHead p"
    and "\<And>r. NextTimeout (endpoints p' r) = NextTimeout (endpoints p r)"
    and "\<And>r. PrevTimeout (endpoints p' r) = PrevTimeout (endpoints p r)"
    and "\<And>r. TimeoutFunc (endpoints p' r) = TimeoutFunc (endpoints p r)"
  shows "timeouts p' pr xs \<longleftrightarrow> timeouts p pr xs"
  using assms by (simp add: timeouts_def)

text \<open>One round of the loop of lines 152-164 on a well-formed list.\<close>

lemma fireHead_spec:
  fixes now :: time
  assumes wf: "timeouts p pr (x # rest)"
  defines "keep \<equiv> TimeoutFunc (endpoints p x) = Some FnTimeoutKeepalive"
  defines "L \<equiv> (if keep
      then insertDue (\<lambda>y. TimeoutDue (endpoints p y)) (now + config_Timeout p) x rest else rest)"
  shows "\<exists>p'. fireHead now p = Some (Inr p') \<and>
           calls p' = calls p @ callEffects p x \<and>
           timeouts p' (if keep \<and> hd L = x then None else Some x) L \<and>
           (\<forall>y. TimeoutFunc (endpoints p' y) =
                  (if y = x then (if keep then Some FnTimeoutPending else None)
                   else TimeoutFunc (endpoints p y))) \<and>
           (\<forall>y. TimeoutDue (endpoints p' y) =
                  (if y = x \<and> keep then now + config_Timeout p else TimeoutDue (endpoints p y))) \<and>
           (\<forall>y. y \<noteq> x \<longrightarrow> pinging (endpoints p' y) = pinging (endpoints p y)) \<and>
           (\<forall>y. transportOk (endpoints p' y) = transportOk (endpoints p y)) \<and>
           config_Timeout p' = config_Timeout p \<and>
           (\<not> keep \<longrightarrow> timeoutTimer p' = timeoutTimer p)"
proof -
  have hd: "timeoutHead p = Some x" using timeouts_head [OF wf] by simp
  have dist: "distinct (x # rest)" using wf by (rule timeouts_distinct)
  obtain cb where cb: "TimeoutFunc (endpoints p x) = Some cb"
    using wf by (auto simp: timeouts_def)
  define p2 where "p2 = upd_ep x (\<lambda>e. e\<lparr>TimeoutFunc := None\<rparr>)
      (p\<lparr>timeoutHead := NextTimeout (endpoints p x)\<rparr>)"
  have fire: "fireHead now p = callTimeoutFunc cb now x p2"
    by (simp add: fireHead_def hd cb Let_def p2_def)
  have wf2: "timeouts p2 (Some x) rest"
    using wf dist by (auto simp: timeouts_def p2_def elim!: linked_cong [THEN iffD2, rotated]
        backed_cong [THEN iffD2, rotated])
  have due2: "\<And>y. TimeoutDue (endpoints p2 y) = TimeoutDue (endpoints p y)"
    by (simp add: p2_def)
  have fun2: "\<And>y. TimeoutFunc (endpoints p2 y) = (if y = x then None else TimeoutFunc (endpoints p y))"
    by (simp add: p2_def)
  have misc2: "\<And>y. pinging (endpoints p2 y) = pinging (endpoints p y)"
    "\<And>y. transportOk (endpoints p2 y) = transportOk (endpoints p y)"
    "config_Timeout p2 = config_Timeout p" "effects p2 = effects p" "timeoutTimer p2 = timeoutTimer p"
    by (simp_all add: p2_def)
  show ?thesis
  proof (cases cb)
    case FnTimeoutPending
    then have nk: "\<not> keep" using cb by (simp add: keep_def)
    define p' where "p' = timeoutPending x p2"
    have "fireHead now p = Some (Inr p')"
      using fire FnTimeoutPending by (simp add: callTimeoutFunc_def p'_def ok_def)
    moreover have "calls p' = calls p @ callEffects p x"
      using cb FnTimeoutPending misc2
      by (simp add: p'_def timeoutPending_def failEndpoint_def IsPinging_def calls_def callEffects_def)
    moreover have "timeouts p' (Some x) rest"
      using wf2 by (simp add: timeouts_def p'_def timeoutPending_def failEndpoint_def)
    ultimately show ?thesis
      using nk due2 fun2 misc2
      by (auto simp: L_def p'_def timeoutPending_def failEndpoint_def)
  next
    case FnTimeoutKeepalive
    then have k: "keep" using cb by (simp add: keep_def)
    let ?due = "now + config_Timeout p"
    have Leq: "L = insertDue (\<lambda>y. TimeoutDue (endpoints p2 y)) ?due x rest"
      using k by (simp add: L_def due2)
    have xn: "x \<notin> set rest" using dist by simp
    obtain p3 where p3: "registerTimeout x ?due FnTimeoutPending p2 = Some (Inr p3)"
      "timeouts p3 (if hd L = x then None else Some x) L"
      "\<forall>y. TimeoutFunc (endpoints p3 y) = (if y = x then Some FnTimeoutPending else TimeoutFunc (endpoints p2 y))"
      "\<forall>y. TimeoutDue (endpoints p3 y) = (if y = x then ?due else TimeoutDue (endpoints p2 y))"
      using registerTimeout_spec [OF wf2, of x ?due FnTimeoutPending] xn unfolding Leq by blast
    have fr: "sansTimer p3 = sansTimer p2" using p3(1) by (rule registerTimeout_frame)
    have c3: "config_Timeout p3 = config_Timeout p" using sansTimer_fields(1) [OF fr] misc2 by simp
    have misc3: "\<And>y. pinging (endpoints p3 y) = pinging (endpoints p y)"
      "\<And>y. transportOk (endpoints p3 y) = transportOk (endpoints p y)"
      using sansTimeout_fields(7,8) [OF sansTimer_fields(14) [OF fr]] misc2 by simp_all
    have calls3: "calls p3 = calls p"
    proof -
      obtain q where "registerTimeout x ?due FnTimeoutPending p2 = Some (Inr q)"
        "effects q = effects p2 @ (if timeoutHead p2 = Some x \<or> hd L = x
            then [TimerReset (TimeoutDue (endpoints q (hd L)))] else [])"
        using registerTimeout_spec [OF wf2, of x ?due FnTimeoutPending] xn unfolding Leq by blast
      then show ?thesis using p3(1) misc2 by (auto simp: calls_def)
    qed
    define p4 where "p4 = emit (EndpointSendPing x) (upd_ep x (\<lambda>e. e\<lparr>pinging := True\<rparr>) p3)"
    define p' where "p' = (if transportOk (endpoints p x) then p4 else failEndpoint x ErrTransport p4)"
    have "fireHead now p = Some (Inr p')"
      using fire FnTimeoutKeepalive p3(1) misc3(2) [of x]
      by (simp add: callTimeoutFunc_def timeoutKeepalive_def misc2 Endpoint_SendPing_def Let_def
          p4_def [symmetric] p'_def ok_def)
    moreover have "calls p' = calls p @ callEffects p x"
      using cb FnTimeoutKeepalive calls3
      by (simp add: p'_def p4_def failEndpoint_def calls_def callEffects_def)
    moreover have "timeouts p' (if hd L = x then None else Some x) L"
    proof -
      have "timeouts p' (if hd L = x then None else Some x) L \<longleftrightarrow>
          timeouts p3 (if hd L = x then None else Some x) L"
        by (rule timeouts_cong) (simp_all add: p'_def p4_def failEndpoint_def)
      then show ?thesis using p3(2) by simp
    qed
    ultimately show ?thesis
      using k p3(3,4) due2 fun2 misc3 c3
      by (auto simp: p'_def p4_def failEndpoint_def)
  qed
qed

lemma insertDue_Nil [simp]: "insertDue dueOf d x [] = [x]"
  by (simp add: insertDue_def)

lemma insertDue_Cons:
  "insertDue dueOf d x (a # r) =
     (if a = x then insertDue dueOf d x r
      else if d < dueOf a then x # a # removeAll x r
      else a # insertDue dueOf d x r)"
  by (simp add: insertDue_def)

lemma takeWhile_insertDue:
  fixes now d :: time
  assumes "now < d" "x \<notin> set r"
  shows "takeWhile (\<lambda>y. (dueOf(x := d)) y \<le> now) (insertDue dueOf d x r) =
         takeWhile (\<lambda>y. dueOf y \<le> now) r"
  using assms by (induction r) (auto simp: insertDue_Cons)

lemma set_dropWhile_insertDue:
  fixes now d :: time
  assumes "now < d" "x \<notin> set r"
  shows "set (dropWhile (\<lambda>y. (dueOf(x := d)) y \<le> now) (insertDue dueOf d x r)) =
         insert x (set (dropWhile (\<lambda>y. dueOf y \<le> now) r))"
  using assms by (induction r) (auto simp: insertDue_Cons)

lemma filter_insertDue:
  fixes now d :: time
  assumes "now < d" "x \<notin> set r"
  shows "filter (\<lambda>y. (dueOf(x := d)) y \<le> now) (insertDue dueOf d x r) =
         filter (\<lambda>y. dueOf y \<le> now) r"
  using assms by (induction r) (auto simp: insertDue_Cons intro!: filter_cong)

lemma processTimeouts_stop:
  fixes now :: time
  assumes wf: "timeouts p pr (x # rest)" and T: "0 < config_Timeout p"
    and fire: "fireHead now p = Some (Inr p1)" "timeouts p1 pr1 L"
    and stop: "L = [] \<or> now < TimeoutDue (endpoints p1 (hd L))"
  shows "processTimeouts now p = Some (Inr p1)"
proof -
  have "timeoutHead p1 = headOf L" using fire(2) by (rule timeouts_head)
  then have "timeoutHead p1 = None \<or> now < TimeoutDue (endpoints p1 (the (timeoutHead p1)))"
    using stop by (cases L) auto
  then show ?thesis
    by (subst processTimeouts.simps) (auto simp: fire(1) ok_def)
qed

lemma processTimeouts_continue:
  fixes now :: time
  assumes fire: "fireHead now p = Some (Inr p1)" "timeouts p1 pr1 (z # L')"
    and due: "\<not> now < TimeoutDue (endpoints p1 z)"
  shows "processTimeouts now p = processTimeouts now p1"
proof -
  have "timeoutHead p1 = Some z" using timeouts_head [OF fire(2)] by simp
  then show ?thesis
    using due by (subst processTimeouts.simps) (simp add: fire(1))
qed

lemma insertDue_not_Nil [simp]: "insertDue dueOf d x r \<noteq> []"
  by (simp add: insertDue_def)

lemma callEffects_cong:
  assumes "TimeoutFunc (endpoints p1 y) = TimeoutFunc (endpoints p y)"
    "pinging (endpoints p1 y) = pinging (endpoints p y)"
    "transportOk (endpoints p1 y) = transportOk (endpoints p y)"
  shows "callEffects p1 y = callEffects p y"
  using assms by (simp add: callEffects_def)

lemma processTimeouts_spec_aux:
  fixes now :: time
  shows "timeouts p pr (x # rest) \<Longrightarrow> 0 < config_Timeout p \<Longrightarrow>
     length (filter (\<lambda>y. TimeoutDue (endpoints p y) \<le> now) rest) = n \<Longrightarrow>
     \<exists>p' pr' ys. processTimeouts now p = Some (Inr p') \<and> timeouts p' pr' ys \<and>
       drained now p (x # takeWhile (\<lambda>y. TimeoutDue (endpoints p y) \<le> now) rest)
         (dropWhile (\<lambda>y. TimeoutDue (endpoints p y) \<le> now) rest) p' ys"
proof (induction n arbitrary: p pr x rest rule: less_induct)
  case (less n)
  let ?due = "\<lambda>y. TimeoutDue (endpoints p y)"
  define keep where "keep \<longleftrightarrow> TimeoutFunc (endpoints p x) = Some FnTimeoutKeepalive"
  define d where "d = now + config_Timeout p"
  define L where "L = (if keep then insertDue ?due d x rest else rest)"
  have dist: "distinct (x # rest)" using less.prems(1) by (rule timeouts_distinct)
  then have xn: "x \<notin> set rest" by simp
  have nd: "now < d" using less.prems(2) by (simp add: d_def)
  obtain p1 pr1 where F: "fireHead now p = Some (Inr p1)"
    "calls p1 = calls p @ callEffects p x"
    "timeouts p1 pr1 L"
    "\<And>y. TimeoutFunc (endpoints p1 y) =
        (if y = x then (if keep then Some FnTimeoutPending else None) else TimeoutFunc (endpoints p y))"
    "\<And>y. TimeoutDue (endpoints p1 y) = (if y = x \<and> keep then d else ?due y)"
    "\<And>y. y \<noteq> x \<Longrightarrow> pinging (endpoints p1 y) = pinging (endpoints p y)"
    "\<And>y. transportOk (endpoints p1 y) = transportOk (endpoints p y)"
    "config_Timeout p1 = config_Timeout p"
    "\<not> keep \<Longrightarrow> timeoutTimer p1 = timeoutTimer p"
    using fireHead_spec [OF less.prems(1), of now] unfolding keep_def d_def L_def by blast
  have due1: "(\<lambda>y. TimeoutDue (endpoints p1 y)) = (if keep then ?due(x := d) else ?due)"
    by (auto simp: F(5) fun_eq_iff)
  have sortedL: "sorted (map (\<lambda>y. TimeoutDue (endpoints p1 y)) L)"
    if "sorted (map ?due (x # rest))"
    using that sorted_insertDue [of ?due rest x d] by (auto simp: due1 L_def)
  show ?case
  proof (cases "L = [] \<or> now < TimeoutDue (endpoints p1 (hd L))")
    case True
    have run: "processTimeouts now p = Some (Inr p1)"
      using less.prems(1,2) F(1,3) True by (rule processTimeouts_stop)
    have tw: "takeWhile (\<lambda>y. ?due y \<le> now) rest = []"
    proof (cases rest)
      case Nil
      then show ?thesis by simp
    next
      case (Cons r rs)
      then have "r \<noteq> x" using xn by auto
      then have "now < ?due r"
        using True Cons nd F(5) [of r] by (auto simp: L_def insertDue_Cons split: if_splits)
      then show ?thesis using Cons by simp
    qed
    then have dw: "dropWhile (\<lambda>y. ?due y \<le> now) rest = rest"
      by (metis append_Nil takeWhile_dropWhile_id)
    have "drained now p [x] rest p1 L"
      unfolding drained_def
      using F(2,4,5,6,7,8,9) True sortedL xn
      by (auto simp: L_def keep_def d_def)
    then show ?thesis using run F(3) tw dw by auto
  next
    case False
    then obtain z L' where Lz: "L = z # L'" and zdue: "\<not> now < TimeoutDue (endpoints p1 z)"
      by (cases L) auto
    have zx: "z \<noteq> x" using zdue nd F(5) [of z] Lz xn by (auto simp: L_def split: if_splits)
    obtain r2 where rest: "rest = z # r2" and L': "L' = (if keep then insertDue ?due d x r2 else r2)"
      using Lz zx xn by (cases rest) (auto simp: L_def insertDue_Cons split: if_splits)
    have zd: "?due z \<le> now" using zdue zx F(5) [of z] by simp
    have xr2: "x \<notin> set r2" "z \<notin> set r2" using dist rest by auto
    have filt: "filter (\<lambda>y. TimeoutDue (endpoints p1 y) \<le> now) L' = filter (\<lambda>y. ?due y \<le> now) r2"
      using filter_insertDue [OF nd xr2(1), of ?due] by (cases keep) (simp_all add: F(5) L')
    have tw1: "takeWhile (\<lambda>y. TimeoutDue (endpoints p1 y) \<le> now) L' = takeWhile (\<lambda>y. ?due y \<le> now) r2"
      using takeWhile_insertDue [OF nd xr2(1), of ?due] by (cases keep) (simp_all add: F(5) L')
    have dw1: "set (dropWhile (\<lambda>y. TimeoutDue (endpoints p1 y) \<le> now) L') =
        set (dropWhile (\<lambda>y. ?due y \<le> now) r2) \<union> (if keep then {x} else {})"
      using set_dropWhile_insertDue [OF nd xr2(1), of ?due] by (cases keep) (simp_all add: F(5) L')
    have less_n: "length (filter (\<lambda>y. TimeoutDue (endpoints p1 y) \<le> now) L') < n"
      using less.prems(3) zd by (simp add: filt rest)
    obtain p' pr' ys where R: "processTimeouts now p1 = Some (Inr p')" "timeouts p' pr' ys"
      "drained now p1 (z # takeWhile (\<lambda>y. ?due y \<le> now) r2)
         (dropWhile (\<lambda>y. TimeoutDue (endpoints p1 y) \<le> now) L') p' ys"
      using less.IH [OF less_n F(3) [unfolded Lz] _ refl] less.prems(2) F(8) tw1 by auto
    have run: "processTimeouts now p = Some (Inr p')"
      using processTimeouts_continue [OF F(1) F(3) [unfolded Lz] zdue] R(1) by simp
    let ?fired1 = "z # takeWhile (\<lambda>y. ?due y \<le> now) r2"
    have xf: "x \<notin> set ?fired1" using xr2 zx by (auto dest: set_takeWhileD)
    have ce: "map (callEffects p1) ?fired1 = map (callEffects p) ?fired1"
    proof (rule map_cong [OF refl])
      fix y assume "y \<in> set ?fired1"
      then have "y \<noteq> x" using xf by auto
      then show "callEffects p1 y = callEffects p y"
        using F(4,6,7) by (intro callEffects_cong) auto
    qed
    have srt: "sorted (map (\<lambda>y. TimeoutDue (endpoints p1 y)) (?fired1 @
        dropWhile (\<lambda>y. TimeoutDue (endpoints p1 y) \<le> now) L'))"
      if "sorted (map ?due (x # rest))"
    proof -
      have "?fired1 @ dropWhile (\<lambda>y. TimeoutDue (endpoints p1 y) \<le> now) L' = L"
        using tw1 [symmetric] by (simp add: Lz)
      then show ?thesis using sortedL [OF that] by simp
    qed
    let ?w1 = "dropWhile (\<lambda>y. TimeoutDue (endpoints p1 y) \<le> now) L'"
    have D: "calls p' = calls p1 @ concat (map (callEffects p1) ?fired1)"
      "set ys = set ?w1 \<union> {y \<in> set ?fired1. TimeoutFunc (endpoints p1 y) = Some FnTimeoutKeepalive}"
      "\<And>y. TimeoutDue (endpoints p' y) =
        (if y \<in> set ?fired1 \<and> TimeoutFunc (endpoints p1 y) = Some FnTimeoutKeepalive
         then now + config_Timeout p1 else TimeoutDue (endpoints p1 y))"
      "\<And>y. TimeoutFunc (endpoints p' y) =
        (if y \<in> set ?fired1
         then (if TimeoutFunc (endpoints p1 y) = Some FnTimeoutKeepalive
               then Some FnTimeoutPending else None)
         else TimeoutFunc (endpoints p1 y))"
      "\<And>y. y \<notin> set ?fired1 \<Longrightarrow> pinging (endpoints p' y) = pinging (endpoints p1 y)"
      "\<And>y. transportOk (endpoints p' y) = transportOk (endpoints p1 y)"
      "ys \<noteq> [] \<Longrightarrow> now < TimeoutDue (endpoints p' (hd ys))"
      "ys = [] \<Longrightarrow> timeoutTimer p' = timeoutTimer p1"
      "sorted (map (\<lambda>y. TimeoutDue (endpoints p1 y)) (?fired1 @ ?w1)) \<Longrightarrow>
        sorted (map (\<lambda>y. TimeoutDue (endpoints p' y)) ys)"
      "config_Timeout p' = config_Timeout p1"
      using R(3) unfolding drained_def by blast+
    have f1: "TimeoutFunc (endpoints p1 y) = TimeoutFunc (endpoints p y)" if "y \<in> set ?fired1" for y
      using that xf F(4) [of y] by auto
    have xin: "x \<in> set ys" if keep
      using D(2) that dw1 by auto
    have "drained now p (x # ?fired1) (dropWhile (\<lambda>y. ?due y \<le> now) r2) p' ys"
      unfolding drained_def
    proof (intro conjI allI impI)
      show "calls p' = calls p @ concat (map (callEffects p) (x # ?fired1))"
        unfolding D(1) F(2) ce by simp
      show "set ys = set (dropWhile (\<lambda>y. ?due y \<le> now) r2) \<union>
          {y \<in> set (x # ?fired1). TimeoutFunc (endpoints p y) = Some FnTimeoutKeepalive}"
        unfolding D(2) dw1 using f1 by (auto simp: keep_def)
      show "TimeoutDue (endpoints p' y) =
          (if y \<in> set (x # ?fired1) \<and> TimeoutFunc (endpoints p y) = Some FnTimeoutKeepalive
           then now + config_Timeout p else TimeoutDue (endpoints p y))" for y
      proof (cases "y \<in> set ?fired1")
        case True
        then have "y \<noteq> x" using xf by auto
        then show ?thesis using True D(3) [of y] f1 [OF True] F(5) [of y] F(8) by simp
      next
        case False
        then show ?thesis using D(3) [of y] F(5) [of y] by (auto simp: keep_def d_def)
      qed
      show "TimeoutFunc (endpoints p' y) =
          (if y \<in> set (x # ?fired1)
           then (if TimeoutFunc (endpoints p y) = Some FnTimeoutKeepalive
                 then Some FnTimeoutPending else None)
           else TimeoutFunc (endpoints p y))" for y
      proof (cases "y \<in> set ?fired1")
        case True
        then show ?thesis using D(4) [of y] f1 [OF True] by simp
      next
        case False
        then show ?thesis using D(4) [of y] F(4) [of y] by (auto simp: keep_def)
      qed
      show "pinging (endpoints p' y) = pinging (endpoints p y)" if "y \<notin> set (x # ?fired1)" for y
        using D(5) [of y] that F(6) [of y] by auto
      show "transportOk (endpoints p' y) = transportOk (endpoints p y)" for y
        using D(6) F(7) by simp
      show "now < TimeoutDue (endpoints p' (hd ys))" if "ys \<noteq> []"
        using D(7) that by simp
      show "timeoutTimer p' = timeoutTimer p" if "ys = []"
        using D(8) that xin F(9) by auto
      show "sorted (map (\<lambda>y. TimeoutDue (endpoints p' y)) ys)"
        if "sorted (map ?due ((x # ?fired1) @ dropWhile (\<lambda>y. ?due y \<le> now) r2))"
      proof -
        have "(x # ?fired1) @ dropWhile (\<lambda>y. ?due y \<le> now) r2 = x # rest"
          by (simp add: rest)
        then have "sorted (map ?due (x # rest))" using that by simp
        then show ?thesis using D(9) srt by blast
      qed
      show "config_Timeout p' = config_Timeout p"
        using D(10) F(8) by simp
    qed
    then show ?thesis using run R(2) zd by (auto simp: rest)
  qed
qed

lemma drained_cong:
  assumes d: "drained now q fired waiting p1 ys"
    and c: "calls p' = calls p1"
    and e: "\<And>y. TimeoutDue (endpoints p' y) = TimeoutDue (endpoints p1 y)"
      "\<And>y. TimeoutFunc (endpoints p' y) = TimeoutFunc (endpoints p1 y)"
      "\<And>y. pinging (endpoints p' y) = pinging (endpoints p1 y)"
      "\<And>y. transportOk (endpoints p' y) = transportOk (endpoints p1 y)"
    and t: "ys = [] \<Longrightarrow> timeoutTimer p' = timeoutTimer p1"
    and g: "config_Timeout p' = config_Timeout p1"
  shows "drained now q fired waiting p' ys"
proof -
  have tt: "(ys = [] \<longrightarrow> timeoutTimer p' = timeoutTimer q) \<longleftrightarrow>
      (ys = [] \<longrightarrow> timeoutTimer p1 = timeoutTimer q)"
    using t by auto
  show ?thesis
    using d unfolding drained_def c e g tt .
qed

text \<open>The timer case of \<^verbatim>\<open>Run\<close> (lines 150-170) on a well-formed list that is not empty.\<close>

lemma timerFired_spec:
  fixes now :: time
  assumes wf: "timeouts p None (x # rest)" and T: "0 < config_Timeout p"
  defines "fired \<equiv> x # takeWhile (\<lambda>y. TimeoutDue (endpoints p y) \<le> now) rest"
    and "waiting \<equiv> dropWhile (\<lambda>y. TimeoutDue (endpoints p y) \<le> now) rest"
  shows "\<exists>p' ys. timerFired now p = Some (Inr p') \<and> timeouts p' None ys \<and>
           drained now (p\<lparr>timeoutTimer := None\<rparr>) fired waiting p' ys \<and>
           timeoutTimer p' = (if ys = [] then None else Some (TimeoutDue (endpoints p' (hd ys))))"
proof -
  define q where "q = p\<lparr>timeoutTimer := None\<rparr>"
  have wfq: "timeouts q None (x # rest)"
    using wf by (simp add: timeouts_def q_def)
  have Tq: "0 < config_Timeout q" using T by (simp add: q_def)
  have eq: "endpoints q = endpoints p" by (simp add: q_def)
  obtain p1 pr1 ys where R: "processTimeouts now q = Some (Inr p1)" "timeouts p1 pr1 ys"
    "drained now q fired waiting p1 ys"
    using processTimeouts_spec_aux [OF wfq Tq refl, of now]
    unfolding eq fired_def [symmetric] waiting_def [symmetric] by blast
  have hd1: "timeoutHead p1 = headOf ys" using R(2) by (rule timeouts_head)
  show ?thesis
  proof (cases ys)
    case Nil
    have "timerFired now p = Some (Inr p1)"
      unfolding timerFired_def q_def [symmetric] using R(1) hd1 Nil by (simp add: ok_def)
    moreover have "timeouts p1 None []" using R(2) Nil by (simp add: timeouts_def)
    moreover have "timeoutTimer p1 = None" using R(3) Nil by (simp add: drained_def q_def)
    ultimately show ?thesis using R(3) [unfolded q_def] Nil by auto
  next
    case (Cons h t)
    define p' where "p' = emit (TimerReset (TimeoutDue (endpoints p1 h)))
        ((upd_ep h (\<lambda>e. e\<lparr>PrevTimeout := None\<rparr>) p1)
           \<lparr>timeoutTimer := Some (TimeoutDue (endpoints p1 h))\<rparr>)"
    have run: "timerFired now p = Some (Inr p')"
      unfolding timerFired_def q_def [symmetric] using R(1) hd1 Cons
      by (simp add: setTimer_def p'_def ok_def)
    have dist: "distinct ys" using R(2) by (rule timeouts_distinct)
    have lk: "linked (\<lambda>r. NextTimeout (endpoints p1 r)) (timeoutHead p1) ys"
      and bk: "backed (\<lambda>r. PrevTimeout (endpoints p1 r)) pr1 ys"
      and rg: "\<forall>y. y \<in> set ys \<longleftrightarrow> TimeoutFunc (endpoints p1 y) \<noteq> None"
      using R(2) by (simp_all add: timeouts_def)
    have "backed (\<lambda>r. PrevTimeout (endpoints p' r)) None ys"
    proof (rule backed_rehead [OF bk dist])
      fix a assume "a \<in> set ys" "Some a \<noteq> headOf ys"
      then show "PrevTimeout (endpoints p' a) = PrevTimeout (endpoints p1 a)"
        using Cons by (simp add: p'_def)
    next
      fix c assume "headOf ys = Some c"
      then show "PrevTimeout (endpoints p' c) = None" using Cons by (simp add: p'_def)
    qed
    moreover have "linked (\<lambda>r. NextTimeout (endpoints p' r)) (timeoutHead p') ys"
    proof -
      have "(\<lambda>r. NextTimeout (endpoints p' r)) = (\<lambda>r. NextTimeout (endpoints p1 r))"
        by (auto simp: p'_def fun_eq_iff)
      then show ?thesis using lk by (simp add: p'_def)
    qed
    moreover have "\<forall>y. y \<in> set ys \<longleftrightarrow> TimeoutFunc (endpoints p' y) \<noteq> None"
      using rg by (simp add: p'_def)
    ultimately have wf': "timeouts p' None ys" by (simp add: timeouts_def)
    have dr: "drained now q fired waiting p' ys"
      using R(3)
    proof (rule drained_cong)
      show "calls p' = calls p1" by (simp add: p'_def calls_def)
      show "ys = [] \<Longrightarrow> timeoutTimer p' = timeoutTimer p1" using Cons by simp
      show "config_Timeout p' = config_Timeout p1" by (simp add: p'_def)
    qed (simp_all add: p'_def)
    have tm: "timeoutTimer p' = (if ys = [] then None else Some (TimeoutDue (endpoints p' (hd ys))))"
      using Cons by (simp add: p'_def)
    show ?thesis
      using run wf' dr [unfolded q_def] tm by blast
  qed
qed

section \<open>What the functions leave alone\<close>

lemma timerInv_cong:
  assumes "timeoutHead p' = timeoutHead p" "timeoutTimer p' = timeoutTimer p"
    and "\<And>r. NextTimeout (endpoints p' r) = NextTimeout (endpoints p r)"
    and "\<And>r. PrevTimeout (endpoints p' r) = PrevTimeout (endpoints p r)"
    and "\<And>r. TimeoutFunc (endpoints p' r) = TimeoutFunc (endpoints p r)"
  shows "timerInv p' \<longleftrightarrow> timerInv p"
  using assms timeouts_cong [of p' p] by (simp add: timerInv_def)

lemma steady_refl [simp]: "steady p p"
  by (simp add: steady_def)

lemma steady_trans: "steady p q \<Longrightarrow> steady q r \<Longrightarrow> steady p r"
  by (auto simp: steady_def)

lemma steady_cong:
  assumes "timeoutHead q' = timeoutHead q" "timeoutTimer q' = timeoutTimer q"
    and "\<And>r. NextTimeout (endpoints q' r) = NextTimeout (endpoints q r)"
    and "\<And>r. PrevTimeout (endpoints q' r) = PrevTimeout (endpoints q r)"
    and "\<And>r. TimeoutFunc (endpoints q' r) = TimeoutFunc (endpoints q r)"
    and "config_Timeout q' = config_Timeout q" "onShutdown q' = onShutdown q"
    and "shuttingDown q' = shuttingDown q" "nextSpool q' = nextSpool q"
    and "ifSpoolChan q' = ifSpoolChan q" "readyHead q' = readyHead q"
  shows "steady p q' \<longleftrightarrow> steady p q"
  using assms timerInv_cong [of q' q] by (simp add: steady_def)

lemma steady_upd_ep [simp]:
  assumes "NextTimeout (f (endpoints q r)) = NextTimeout (endpoints q r)"
    and "PrevTimeout (f (endpoints q r)) = PrevTimeout (endpoints q r)"
    and "TimeoutFunc (f (endpoints q r)) = TimeoutFunc (endpoints q r)"
  shows "steady p (upd_ep r f q) \<longleftrightarrow> steady p q"
  using assms by (intro steady_cong) simp_all

lemma steady_simps [simp]:
  "steady p (emit x q) \<longleftrightarrow> steady p q"
  "steady p (upd_pl r g q) \<longleftrightarrow> steady p q"
  "steady p (q\<lparr>firstPayload := a\<rparr>) \<longleftrightarrow> steady p q"
  "steady p (q\<lparr>lastPayload := b\<rparr>) \<longleftrightarrow> steady p q"
  "steady p (q\<lparr>numPayloads := c\<rparr>) \<longleftrightarrow> steady p q"
  "steady p (q\<lparr>outOfSync := d\<rparr>) \<longleftrightarrow> steady p q"
  "steady p (q\<lparr>fullHead := i\<rparr>) \<longleftrightarrow> steady p q"
  "steady p (q\<lparr>payloads := m\<rparr>) \<longleftrightarrow> steady p q"
  "steady p (q\<lparr>nextRef := n\<rparr>) \<longleftrightarrow> steady p q"
  by (rule steady_cong; simp)+

lemma andThen_steady:
  assumes "andThen m k = Some (Inr p')"
    and "\<And>p1. m = Some (Inr p1) \<Longrightarrow> steady p (st p1)"
    and "\<And>p1. m = Some (Inr p1) \<Longrightarrow> k p1 = Some (Inr p') \<Longrightarrow> steady (st p1) p'"
  shows "steady p p'"
  using assms by (auto simp: andThen_returns intro: steady_trans)

lemma registerTimeout_steady:
  assumes "registerTimeout e due f p = Some (Inr p')"
  shows "steady p p'"
proof -
  note fr = sansTimer_fields [OF registerTimeout_frame [OF assms]]
  have "timerInv p'" if inv: "timerInv p"
  proof -
    obtain xs where wf: "timeouts p None xs" using inv by (auto simp: timerInv_def)
    let ?ys = "insertDue (\<lambda>x. TimeoutDue (endpoints p x)) due e xs"
    obtain q where "registerTimeout e due f p = Some (Inr q)"
      "timeouts q (if hd ?ys = e then None else None) ?ys"
      using registerTimeout_spec [OF wf, of e due f] by blast
    then have wf': "timeouts p' None ?ys" using assms by simp
    then have "timeoutHead p' \<noteq> None" using timeouts_head [OF wf'] by (cases ?ys) simp_all
    then show ?thesis using wf' by (auto simp: timerInv_def)
  qed
  then show ?thesis using fr by (simp add: steady_def)
qed

lemma appendPayload_steady:
  assumes "appendPayload pl p = Some (Inr r)"
  shows "steady p (snd r)"
  using assms unfolding appendPayload_def Let_def
  by (auto simp: andThen_returns split: option.splits)

lemma transmit_steady [simp]: "steady p (transmit e r q) \<longleftrightarrow> steady p q"
  by (simp add: transmit_def Endpoint_SendPayload_def failEndpoint_def Let_def)

lemma sendPayload_steady:
  assumes "sendPayload now e sp p = Some (Inr p')"
  shows "steady p p'"
  using assms unfolding sendPayload_def
proof (rule andThen_steady [where st = "\<lambda>q. q"])
  fix p1
  assume "(if NumPending (endpoints p e) = 0
      then registerTimeout e (now + config_Timeout p) FnTimeoutPending p else ok p) = Some (Inr p1)"
  then show "steady p p1" by (auto split: if_splits dest: registerTimeout_steady)
next
  fix p1
  assume "(case NewPendingPayload sp of Inl err \<Rightarrow> ok p1
      | Inr pl \<Rightarrow> andThen (appendPayload pl p1) (\<lambda>r. ok (transmit e (fst r) (snd r)))) = Some (Inr p')"
  then show "steady p1 p'"
    by (auto simp: andThen_returns split: sum.splits dest: appendPayload_steady)
qed

lemma steady_calm: "steady p p' \<Longrightarrow> calm p p'"
  by (simp add: steady_def calm_def)

lemma calm_refl [simp]: "calm p p"
  by (simp add: calm_def)

lemma calm_trans: "calm p q \<Longrightarrow> calm q r \<Longrightarrow> calm p r"
  by (auto simp: calm_def)

lemma calm_cong:
  assumes "timeoutHead q' = timeoutHead q" "timeoutTimer q' = timeoutTimer q"
    and "\<And>r. NextTimeout (endpoints q' r) = NextTimeout (endpoints q r)"
    and "\<And>r. PrevTimeout (endpoints q' r) = PrevTimeout (endpoints q r)"
    and "\<And>r. TimeoutFunc (endpoints q' r) = TimeoutFunc (endpoints q r)"
    and "config_Timeout q' = config_Timeout q" "onShutdown q' = onShutdown q"
    and "shuttingDown q' = shuttingDown q"
  shows "calm p q' \<longleftrightarrow> calm p q"
  using assms timerInv_cong [of q' q] by (simp add: calm_def)

lemma calm_upd_ep [simp]:
  assumes "NextTimeout (f (endpoints q r)) = NextTimeout (endpoints q r)"
    and "PrevTimeout (f (endpoints q r)) = PrevTimeout (endpoints q r)"
    and "TimeoutFunc (f (endpoints q r)) = TimeoutFunc (endpoints q r)"
  shows "calm p (upd_ep r f q) \<longleftrightarrow> calm p q"
  using assms by (intro calm_cong) simp_all

lemma calm_simps [simp]:
  "calm p (emit x q) \<longleftrightarrow> calm p q"
  "calm p (q\<lparr>readyHead := h\<rparr>) \<longleftrightarrow> calm p q"
  "calm p (q\<lparr>fullHead := i\<rparr>) \<longleftrightarrow> calm p q"
  "calm p (q\<lparr>nextSpool := a\<rparr>) \<longleftrightarrow> calm p q"
  "calm p (q\<lparr>ifSpoolChan := b\<rparr>) \<longleftrightarrow> calm p q"
  by (rule calm_cong; simp)+

lemma addReady_calm:
  assumes "addReady e p = Some (Inr p')"
  shows "calm p p' \<and> nextSpool p' = nextSpool p \<and> ifSpoolChan p' = ifSpoolChan p"
  using assms unfolding addReady_def Let_def
  by (auto simp: andThen_returns split: if_splits prod.splits)

lemma unlinkFull_steady [simp]: "steady p (unlinkFull e q) \<longleftrightarrow> steady p q"
  by (simp add: unlinkFull_def Let_def split: option.splits)

lemma drainAcks_steady:
  assumes "drainAcks payload oos q = Some p'"
  shows "steady q p'"
proof (rule drainAcks.raw_induct [where P = "\<lambda>a b q p'. steady q p'", OF _ assms], goal_cases)
  case (1 drain payload oos q p')
  let ?p1 = "emit (RegistrarAdd payload (fst (fst (Rollup (payloads q payload))))
        (snd (fst (Rollup (payloads q payload)))))
      (upd_pl payload (\<lambda>x. snd (Rollup (payloads q payload))) q)"
  let ?p2 = "?p1\<lparr>firstPayload := nextPayload (payloads ?p1 payload), outOfSync := oos - 1,
      numPayloads := numPayloads ?p1 - 1\<rparr>"
  have s2: "steady q ?p2" by simp
  show ?case
  proof (cases "HasAck (payloads q payload) \<and> Complete (payloads ?p1 payload) \<and>
      nextPayload (payloads ?p1 payload) \<noteq> None")
    case True
    then have "drain (the (nextPayload (payloads ?p1 payload))) (oos - 1) ?p2 = Some p'"
      using 1(2) by (auto simp: Let_def split: if_splits)
    then have "steady ?p2 p'" by (rule 1(1))
    with s2 show ?thesis by (rule steady_trans)
  next
    case False
    then show ?thesis using 1(2) by (auto simp: Let_def split: if_splits)
  qed
qed

lemma ackOrdering_steady:
  assumes "ackOrdering e msg p = Some (Inr p')"
  shows "steady p p'"
proof -
  let ?q = "snd (Endpoint_ProcessAck e msg p)"
  have q: "steady p ?q"
    by (simp add: Endpoint_ProcessAck_def Let_def)
  have "steady ?q p'"
    using assms unfolding ackOrdering_def Let_def
    by (auto simp: andThen_returns returns_def split: if_splits option.splits
        dest!: drainAcks_steady)
  with q show ?thesis by (rule steady_trans)
qed

lemma registerReady_calm:
  assumes "registerReady now e p = Some (Inr p')"
  shows "calm p p'"
proof (cases "Ready (endpoints p e) \<or> 4 \<le> NumPending (endpoints p e)")
  case True
  then show ?thesis
    using assms unfolding registerReady_def Let_def
    by (auto split: if_splits option.splits)
next
  case False
  show ?thesis
  proof (cases "nextSpool p = None")
    case True
    then obtain p1 where p1: "addReady e p = Some (Inr p1)"
      and rest: "(if TimeoutFunc (endpoints p1 e) = None
          then registerTimeout e (now + keepalive_timeout) FnTimeoutKeepalive p1 else ok p1) = Some (Inr p')"
      using assms False unfolding registerReady_def by (auto simp: andThen_returns)
    have "calm p p1" using addReady_calm [OF p1] by simp
    moreover have "calm p1 p'"
      using rest by (auto split: if_splits dest!: registerTimeout_steady steady_calm)
    ultimately show ?thesis by (rule calm_trans)
  next
    case spool: False
    then obtain p1 where p1: "sendPayload now e (nextSpool p) p = Some (Inr p1)"
      and p': "p' = p1\<lparr>nextSpool := None, ifSpoolChan := True\<rparr>"
      using assms False unfolding registerReady_def by (auto simp: andThen_returns)
    have "calm p p1" using sendPayload_steady [OF p1] by (rule steady_calm)
    then show ?thesis by (simp add: p')
  qed
qed

lemma processAck_calm:
  assumes "processAck now e msg p = Some (Inr p')"
  shows "calm p p'"
proof -
  obtain p1 p2 where p1: "ackOrdering e msg p = Some (Inr p1)"
    and p2: "(if NumPending (endpoints p1 e) \<noteq> 0
        then registerTimeout e (now + config_Timeout p1) FnTimeoutPending p1
        else registerTimeout e (now + keepalive_timeout) FnTimeoutKeepalive p1) = Some (Inr p2)"
    and p': "(if Full (endpoints p2 e) \<and> NumPending (endpoints p2 e) < 4
        then registerReady now e (unlinkFull e p2) else ok p2) = Some (Inr p')"
    using assms unfolding processAck_def by (auto simp: andThen_returns)
  have "calm p p1" using ackOrdering_steady [OF p1] by (rule steady_calm)
  moreover have "calm p1 p2"
    using p2 by (auto split: if_splits dest!: registerTimeout_steady steady_calm)
  moreover have "calm p2 p'"
  proof (cases "Full (endpoints p2 e) \<and> NumPending (endpoints p2 e) < 4")
    case True
    then have "calm (unlinkFull e p2) p'" using p' by (auto dest: registerReady_calm)
    moreover have "calm p2 (unlinkFull e p2)" by (rule steady_calm) simp
    ultimately show ?thesis by (blast intro: calm_trans)
  next
    case False
    then show ?thesis using p' by (auto split: if_splits)
  qed
  ultimately show ?thesis by (blast intro: calm_trans)
qed

lemma processPong_steady:
  assumes "processPong now e p = Some (Inr r)"
  shows "steady p (snd r)"
proof -
  let ?q = "snd (Endpoint_ProcessPong e p)"
  have q: "steady p ?q" by (simp add: Endpoint_ProcessPong_def)
  have "steady ?q (snd r)"
    using assms unfolding processPong_def Let_def
    by (auto simp: andThen_returns split: if_splits option.splits dest!: registerTimeout_steady)
  with q show ?thesis by (rule steady_trans)
qed

lemma untouched_trans: "untouched p q \<Longrightarrow> untouched q r \<Longrightarrow> untouched p r"
  by (simp add: untouched_def)

lemma fireHead_untouched:
  assumes "fireHead now p = Some (Inr p')"
  shows "untouched p p'"
proof -
  obtain x cb where x: "timeoutHead p = Some x" "TimeoutFunc (endpoints p x) = Some cb"
    using assms by (auto simp: fireHead_def Let_def split: option.splits)
  let ?q = "upd_ep x (\<lambda>e. e\<lparr>TimeoutFunc := None\<rparr>) (p\<lparr>timeoutHead := NextTimeout (endpoints p x)\<rparr>)"
  have call: "callTimeoutFunc cb now x ?q = Some (Inr p')"
    using assms x by (simp add: fireHead_def Let_def)
  have q: "untouched p ?q" by (simp add: untouched_def)
  have "untouched ?q p'"
  proof (cases cb)
    case FnTimeoutPending
    then have "p' = timeoutPending x ?q" using call by (simp add: callTimeoutFunc_def)
    then show ?thesis
      by (simp add: untouched_def timeoutPending_def failEndpoint_def)
  next
    case FnTimeoutKeepalive
    then obtain p1 where p1: "registerTimeout x (now + config_Timeout ?q) FnTimeoutPending ?q = Some (Inr p1)"
      and p': "p' = (case fst (Endpoint_SendPing x p1) of
            Some err \<Rightarrow> failEndpoint x err (snd (Endpoint_SendPing x p1))
          | None \<Rightarrow> snd (Endpoint_SendPing x p1))"
      using call
      by (auto simp: callTimeoutFunc_def timeoutKeepalive_def andThen_returns Let_def
          split: option.splits)
    note fr = sansTimer_fields [OF registerTimeout_frame [OF p1]]
    show ?thesis
      using fr unfolding p' untouched_def
      by (simp add: Endpoint_SendPing_def failEndpoint_def Let_def split: option.splits)
  qed
  with q show ?thesis by (rule untouched_trans)
qed

lemma processTimeouts_untouched:
  assumes "processTimeouts now p = Some (Inr p')"
  shows "untouched p p'"
proof -
  have "\<forall>q. (Inr p' :: fault + Publisher) = Inr q \<longrightarrow> untouched p q"
  proof (rule processTimeouts.raw_induct [where P = "\<lambda>now p r. \<forall>q. r = Inr q \<longrightarrow> untouched p q",
        OF _ assms], goal_cases)
    case (1 loop now p r)
    show ?case
    proof (intro allI impI)
      fix p' assume r: "r = Inr p'"
      then obtain p1 where p1: "fireHead now p = Some (Inr p1)"
        and rest: "(if timeoutHead p1 = None \<or> now < TimeoutDue (endpoints p1 (the (timeoutHead p1)))
            then ok p1 else loop now p1) = Some (Inr p')"
        using 1(2) by (auto simp: andThen_returns)
      note f1 = fireHead_untouched [OF p1]
      show "untouched p p'"
      proof (cases "timeoutHead p1 = None \<or> now < TimeoutDue (endpoints p1 (the (timeoutHead p1)))")
        case True
        then have "p' = p1" using rest by (auto split: if_splits)
        then show ?thesis using f1 by simp
      next
        case False
        then have "loop now p1 = Some (Inr p')" using rest by (auto split: if_splits)
        then have "untouched p1 p'" using 1(1) by blast
        with f1 show ?thesis by (rule untouched_trans)
      qed
    qed
  qed
  then show ?thesis by simp
qed

lemma timerFired_steady:
  assumes "timerFired now p = Some (Inr p')"
  shows "steady p p'"
proof -
  obtain p1 where p1: "processTimeouts now (p\<lparr>timeoutTimer := None\<rparr>) = Some (Inr p1)"
    and p': "(case timeoutHead p1 of None \<Rightarrow> ok p1
        | Some h \<Rightarrow> setTimer (upd_ep h (\<lambda>x. x\<lparr>PrevTimeout := None\<rparr>) p1)) = Some (Inr p')"
    using assms by (auto simp: timerFired_def andThen_returns)
  have "untouched p1 p'"
    using p' by (auto simp: untouched_def setTimer_def split: option.splits)
  then have fields: "untouched p p'"
    using processTimeouts_untouched [OF p1] by (simp add: untouched_def)
  have "timerInv p'" if inv: "timerInv p" and T: "0 < config_Timeout p"
  proof -
    obtain xs where wf: "timeouts p None xs" using inv by (auto simp: timerInv_def)
    have "timeoutHead p \<noteq> None"
    proof
      assume "timeoutHead p = None"
      then have "fireHead now (p\<lparr>timeoutTimer := None\<rparr>) = Some (Inl NilDereference)"
        by (simp add: fireHead_def panic_def)
      then have "processTimeouts now (p\<lparr>timeoutTimer := None\<rparr>) = Some (Inl NilDereference)"
        by (subst processTimeouts.simps) simp
      then show False using p1 by simp
    qed
    then obtain x rest where xs: "xs = x # rest"
      using timeouts_head [OF wf] by (cases xs) auto
    obtain q zs where q: "timerFired now p = Some (Inr q)" "timeouts q None zs"
      "timeoutTimer q = (if zs = [] then None else Some (TimeoutDue (endpoints q (hd zs))))"
      using timerFired_spec [OF wf [unfolded xs] T, of now] by blast
    then have "q = p'" using assms by simp
    then have "timeouts p' None zs" "timeoutTimer p' \<noteq> None \<longrightarrow> zs \<noteq> []"
      using q by auto
    then show ?thesis
      using timeouts_head [of p' None zs] by (cases zs) (auto simp: timerInv_def)
  qed
  then show ?thesis using fields by (simp add: steady_def untouched_def)
qed

lemma calm_timerInv:
  assumes "calm p p'" "timerInv p" "0 < config_Timeout p"
  shows "timerInv p' \<and> config_Timeout p' = config_Timeout p"
  using assms by (simp add: calm_def)

lemma publishLoop_calm:
  assumes "publishLoop now i p = Some (Inr out)" and "i \<noteq> FromOnShutdown"
  shows "calm p (stateAfter out)"
proof (cases i)
  case (FromReadyChan e)
  then obtain p1 where "registerReady now e p = Some (Inr p1)" "out = Continue p1"
    using assms by (auto simp: publishLoop_def andThen_returns)
  then show ?thesis using registerReady_calm by simp
next
  case (FromSpoolChan sp)
  show ?thesis
  proof (cases "readyHead p")
    case None
    then show ?thesis using assms FromSpoolChan by (auto simp: publishLoop_def)
  next
    case (Some h)
    let ?q = "upd_ep h (\<lambda>x. x\<lparr>Ready := False\<rparr>) p"
    obtain p1 h1 where p1: "sendPayload now h sp ?q = Some (Inr p1)"
      and out: "out = Continue (p1\<lparr>readyHead := NextReady (endpoints p1 h1)\<rparr>)"
      using assms FromSpoolChan Some
      by (auto simp: publishLoop_def andThen_returns panic_def split: option.splits)
    have "calm p ?q" by simp
    moreover have "calm ?q p1" using sendPayload_steady [OF p1] by (rule steady_calm)
    ultimately have "calm p p1" by (rule calm_trans)
    then show ?thesis by (simp add: out)
  qed
next
  case (FromResponseChan e resp)
  show ?thesis
  proof (cases resp)
    case (AckResponse msg)
    then obtain p1 where "processAck now e msg p = Some (Inr p1)" "stateAfter out = p1"
      using assms FromResponseChan
      by (auto simp: publishLoop_def andThen_returns split: if_splits)
    then show ?thesis using processAck_calm by simp
  next
    case PongResponse
    then obtain r where r: "processPong now e p = Some (Inr r)"
      and out: "stateAfter out = (case fst r of Some err \<Rightarrow> failEndpoint e err (snd r) | None \<Rightarrow> snd r)"
      using assms FromResponseChan
      by (auto simp: publishLoop_def andThen_returns split: option.splits)
    have "calm p (snd r)" using processPong_steady [OF r] by (rule steady_calm)
    then show ?thesis by (simp add: out failEndpoint_def split: option.splits)
  next
    case OtherResponse
    then show ?thesis
      using assms FromResponseChan by (auto simp: publishLoop_def failEndpoint_def)
  qed
next
  case (FromFailChan e err)
  then show ?thesis using assms by (auto simp: publishLoop_def failEndpoint_def)
next
  case FromTimeoutTimer
  then obtain p1 where "timerFired now p = Some (Inr p1)" "out = Continue p1"
    using assms by (auto simp: publishLoop_def andThen_returns)
  then show ?thesis using timerFired_steady steady_calm by simp
next
  case FromStatsTimer
  then show ?thesis using assms by (auto simp: publishLoop_def)
next
  case FromOnShutdown
  then show ?thesis using assms by simp
qed

lemma publishLoop_timerInv:
  assumes "publishLoop now i p = Some (Inr out)" "timerInv p" "0 < config_Timeout p"
  shows "timerInv (stateAfter out) \<and> config_Timeout (stateAfter out) = config_Timeout p"
proof (cases "i = FromOnShutdown")
  case False
  then show ?thesis using calm_timerInv [OF publishLoop_calm [OF assms(1)] assms(2,3)] by simp
next
  case True
  have "timerInv (p\<lparr>onShutdown := False, ifSpoolChan := False, shuttingDown := True\<rparr>) \<longleftrightarrow> timerInv p"
    by (rule timerInv_cong) simp_all
  then show ?thesis
    using assms True by (auto simp: publishLoop_def split: if_splits)
qed

lemma loopOn_timerInv:
  assumes "loopOn inputs p = Some (Inr (Inl p'))" "timerInv p" "0 < config_Timeout p"
  shows "timerInv p' \<and> config_Timeout p' = config_Timeout p"
  using assms
proof (induction inputs arbitrary: p)
  case Nil
  then show ?case by simp
next
  case (Cons ti rest)
  show ?case
  proof (cases "selectable (fst ti) (snd ti) p")
    case False
    then have "loopOn rest p = Some (Inr (Inl p'))" using Cons.prems(1) by simp
    then show ?thesis using Cons.IH Cons.prems(2,3) by blast
  next
    case True
    then obtain out where out: "publishLoop (fst ti) (snd ti) p = Some (Inr out)"
      and rest: "(case out of Continue p1 \<Rightarrow> loopOn rest p1 | Break p1 \<Rightarrow> ok (Inr (afterLoop p1)))
          = Some (Inr (Inl p'))"
      using Cons.prems(1) by (auto simp: andThen_returns)
    obtain p1 where p1: "out = Continue p1" "loopOn rest p1 = Some (Inr (Inl p'))"
      using rest by (cases out) auto
    have "timerInv p1 \<and> config_Timeout p1 = config_Timeout p"
      using publishLoop_timerInv [OF out Cons.prems(2,3)] p1 by simp
    then show ?thesis using Cons.IH [OF p1(2)] Cons.prems(3) by simp
  qed
qed

lemma NewPublisher_timerInv:
  assumes "\<forall>x. TimeoutFunc (eps x) = None"
  shows "timerInv (beforeLoop (NewPublisher timeout eps))"
  using assms by (simp add: timerInv_def timeouts_def beforeLoop_def NewPublisher_def exI [of _ "[]"])

lemma timerFired_returns:
  assumes "timerInv p" "0 < config_Timeout p" "timeoutTimer p \<noteq> None"
  shows "\<exists>p'. timerFired now p = Some (Inr p')"
proof -
  obtain xs where wf: "timeouts p None xs" using assms(1) by (auto simp: timerInv_def)
  have "timeoutHead p \<noteq> None" using assms(1,3) by (simp add: timerInv_def)
  then obtain x rest where xs: "xs = x # rest"
    using timeouts_head [OF wf] by (cases xs) auto
  show ?thesis using timerFired_spec [OF wf [unfolded xs] assms(2), of now] by blast
qed

section \<open>Leaving the loop\<close>

lemma publishLoop_Break:
  assumes "publishLoop now i p = Some (Inr (Break p'))"
  shows "(i = FromOnShutdown \<and> numPayloads p = 0 \<and> p' = p) \<or>
         (\<exists>e msg. i = FromResponseChan e (AckResponse msg) \<and>
            processAck now e msg p = Some (Inr p') \<and> shuttingDown p' \<and> numPayloads p' = 0)"
proof (cases i)
  case (FromResponseChan e resp)
  then show ?thesis
    using assms
    by (cases resp) (auto simp: publishLoop_def andThen_returns split: if_splits option.splits)
next
  case (FromSpoolChan sp)
  then show ?thesis
    using assms
    by (auto simp: publishLoop_def andThen_returns panic_def split: if_splits option.splits)
qed (use assms in \<open>auto simp: publishLoop_def andThen_returns split: if_splits\<close>)

lemma loopOn_exit:
  assumes "loopOn inputs p = Some (Inr (Inr pf))"
  shows "\<exists>p1. pf = afterLoop p1 \<and> numPayloads p1 = 0"
  using assms
proof (induction inputs arbitrary: p)
  case Nil
  then show ?case by simp
next
  case (Cons ti rest)
  show ?case
  proof (cases "selectable (fst ti) (snd ti) p")
    case False
    then show ?thesis using Cons by simp
  next
    case True
    then obtain out where out: "publishLoop (fst ti) (snd ti) p = Some (Inr out)"
      and rest: "(case out of Continue p1 \<Rightarrow> loopOn rest p1 | Break p1 \<Rightarrow> ok (Inr (afterLoop p1)))
          = Some (Inr (Inr pf))"
      using Cons.prems by (auto simp: andThen_returns)
    show ?thesis
    proof (cases out)
      case (Continue p1)
      then show ?thesis using rest Cons.IH by simp
    next
      case (Break p1)
      then have "pf = afterLoop p1" using rest by simp
      moreover have "numPayloads p1 = 0"
        using publishLoop_Break [OF out [unfolded Break]] by auto
      ultimately show ?thesis by blast
    qed
  qed
qed

section \<open>Sending a spool to an endpoint\<close>

lemma registerTimeout_returns:
  assumes "timerInv p"
  shows "\<exists>p'. registerTimeout e due f p = Some (Inr p') \<and> sansTimer p' = sansTimer p \<and>
           calls p' = calls p"
proof -
  obtain xs where wf: "timeouts p None xs" using assms by (auto simp: timerInv_def)
  obtain p' where p': "registerTimeout e due f p = Some (Inr p')"
    and eff: "effects p' = effects p @
      (if timeoutHead p = Some e \<or> hd (insertDue (\<lambda>x. TimeoutDue (endpoints p x)) due e xs) = e
       then [TimerReset (TimeoutDue (endpoints p' (hd (insertDue (\<lambda>x. TimeoutDue (endpoints p x)) due e xs))))]
       else [])"
    using registerTimeout_spec [OF wf, of e due f] by auto
  have "calls p' = calls p" by (simp add: calls_def eff)
  then show ?thesis using p' registerTimeout_frame [OF p'] by blast
qed

lemma appendPayload_returns:
  assumes "firstPayload p \<noteq> None \<longrightarrow> lastPayload p \<noteq> None"
  shows "\<exists>p'. appendPayload pl p = Some (Inr (nextRef p, p')) \<and>
           endpoints p' = endpoints p \<and> effects p' = effects p \<and>
           events (payloads p' (nextRef p)) = events pl \<and>
           numPayloads p' = numPayloads p + 1 \<and> lastPayload p' = Some (nextRef p) \<and>
           nextRef p' = nextRef p + 1"
proof (cases "firstPayload p")
  case None
  then show ?thesis by (simp add: appendPayload_def Let_def)
next
  case (Some f)
  then obtain l where "lastPayload p = Some l" using assms by auto
  then show ?thesis using Some by (simp add: appendPayload_def Let_def)
qed

lemma sendPayload_sends:
  assumes inv: "timerInv p" and q: "firstPayload p \<noteq> None \<longrightarrow> lastPayload p \<noteq> None"
    and ne: "evs \<noteq> []"
  shows "\<exists>p'. sendPayload now e (Some evs) p = Some (Inr p') \<and>
           events (payloads p' (nextRef p)) = evs \<and>
           (\<forall>x. pending (endpoints p' x) =
                  (if x = e then pending (endpoints p e) @ [nextRef p] else pending (endpoints p x))) \<and>
           (\<forall>x. Ready (endpoints p' x) = Ready (endpoints p x)) \<and>
           (\<forall>x. NextReady (endpoints p' x) = NextReady (endpoints p x)) \<and>
           numPayloads p' = numPayloads p + 1 \<and> lastPayload p' = Some (nextRef p) \<and>
           calls p' = calls p @ EndpointSendPayload e (nextRef p) #
             (if transportOk (endpoints p e) then [] else [EndpointFailed e ErrTransport])"
proof -
  obtain p1 where m: "(if NumPending (endpoints p e) = 0
        then registerTimeout e (now + config_Timeout p) FnTimeoutPending p else ok p) = Some (Inr p1)"
    and fr: "sansTimer p1 = sansTimer p" and c1: "calls p1 = calls p"
    using registerTimeout_returns [OF inv, of e "now + config_Timeout p" FnTimeoutPending]
    by (cases "NumPending (endpoints p e) = 0") auto
  note f1 = sansTimer_fields [OF fr]
  have q1: "firstPayload p1 \<noteq> None \<longrightarrow> lastPayload p1 \<noteq> None" using q f1 by simp
  define pl where "pl = \<lparr>events = evs, ackCount = 0, rollupMark = 0, nextPayload = None\<rparr>"
  have npl: "NewPendingPayload (Some evs) = Inr pl" using ne by (simp add: NewPendingPayload_def pl_def)
  obtain p3 where ap: "appendPayload pl p1 = Some (Inr (nextRef p, p3))"
    and a: "endpoints p3 = endpoints p1" "effects p3 = effects p1"
      "events (payloads p3 (nextRef p)) = evs"
      "numPayloads p3 = numPayloads p + 1" "lastPayload p3 = Some (nextRef p)"
    using appendPayload_returns [OF q1, of pl] f1 by (auto simp: pl_def)
  define p' where "p' = transmit e (nextRef p) p3"
  have run: "sendPayload now e (Some evs) p = Some (Inr p')"
    unfolding sendPayload_def m by (simp add: npl ap p'_def)
  have ep: "\<And>x. pending (endpoints p1 x) = pending (endpoints p x)"
    "\<And>x. Ready (endpoints p1 x) = Ready (endpoints p x)"
    "\<And>x. NextReady (endpoints p1 x) = NextReady (endpoints p x)"
    "\<And>x. transportOk (endpoints p1 x) = transportOk (endpoints p x)"
    using sansTimeout_fields [OF f1(14)] by simp_all
  have t: "events (payloads p' (nextRef p)) = evs"
    "\<And>x. pending (endpoints p' x) =
        (if x = e then pending (endpoints p e) @ [nextRef p] else pending (endpoints p x))"
    "\<And>x. Ready (endpoints p' x) = Ready (endpoints p x)"
    "\<And>x. NextReady (endpoints p' x) = NextReady (endpoints p x)"
    "numPayloads p' = numPayloads p + 1" "lastPayload p' = Some (nextRef p)"
    "effects p' = effects p1 @ EndpointSendPayload e (nextRef p) #
       (if transportOk (endpoints p e) then [] else [EndpointFailed e ErrTransport])"
    using a ep
    by (simp_all add: p'_def transmit_def Endpoint_SendPayload_def failEndpoint_def Let_def
        split: option.splits)
  have "calls p' = calls p @ EndpointSendPayload e (nextRef p) #
      (if transportOk (endpoints p e) then [] else [EndpointFailed e ErrTransport])"
    using c1 by (simp add: calls_def t(7))
  then show ?thesis using run t(1-6) by blast
qed

section \<open>The parked spool\<close>

lemma steady_parkedInv: "steady p p' \<Longrightarrow> parkedInv p \<Longrightarrow> parkedInv p'"
  by (simp add: steady_def parkedInv_def)

lemma registerReady_parkedInv:
  assumes "registerReady now e p = Some (Inr p')" "parkedInv p"
  shows "parkedInv p'"
proof (cases "Ready (endpoints p e) \<or> 4 \<le> NumPending (endpoints p e)")
  case True
  then show ?thesis
    using assms unfolding registerReady_def Let_def
    by (auto simp: parkedInv_def split: if_splits option.splits)
next
  case False
  show ?thesis
  proof (cases "nextSpool p = None")
    case True
    then obtain p1 where p1: "addReady e p = Some (Inr p1)"
      and rest: "(if TimeoutFunc (endpoints p1 e) = None
          then registerTimeout e (now + keepalive_timeout) FnTimeoutKeepalive p1 else ok p1) = Some (Inr p')"
      using assms False unfolding registerReady_def by (auto simp: andThen_returns)
    have "nextSpool p1 = None" using addReady_calm [OF p1] True by simp
    moreover have "steady p1 p'"
      using rest by (auto split: if_splits dest!: registerTimeout_steady)
    ultimately show ?thesis by (simp add: steady_def parkedInv_def)
  next
    case spool: False
    then obtain p1 where "p' = p1\<lparr>nextSpool := None, ifSpoolChan := True\<rparr>"
      using assms False unfolding registerReady_def by (auto simp: andThen_returns)
    then show ?thesis by (simp add: parkedInv_def)
  qed
qed

lemma processAck_parkedInv:
  assumes "processAck now e msg p = Some (Inr p')" "parkedInv p"
  shows "parkedInv p'"
proof -
  obtain p1 p2 where p1: "ackOrdering e msg p = Some (Inr p1)"
    and p2: "(if NumPending (endpoints p1 e) \<noteq> 0
        then registerTimeout e (now + config_Timeout p1) FnTimeoutPending p1
        else registerTimeout e (now + keepalive_timeout) FnTimeoutKeepalive p1) = Some (Inr p2)"
    and p': "(if Full (endpoints p2 e) \<and> NumPending (endpoints p2 e) < 4
        then registerReady now e (unlinkFull e p2) else ok p2) = Some (Inr p')"
    using assms unfolding processAck_def by (auto simp: andThen_returns)
  have "steady p p1" using p1 by (rule ackOrdering_steady)
  moreover have "steady p1 p2"
    using p2 by (auto split: if_splits dest!: registerTimeout_steady)
  ultimately have "parkedInv p2" using assms(2) by (blast intro: steady_parkedInv)
  then have "parkedInv (unlinkFull e p2)" by (rule steady_parkedInv [rotated]) simp
  then show ?thesis
    using p' \<open>parkedInv p2\<close> by (auto split: if_splits dest: registerReady_parkedInv)
qed

lemma publishLoop_parkedInv:
  assumes "publishLoop now i p = Some (Inr out)" "parkedInv p" "selectable now i p"
  shows "parkedInv (stateAfter out)"
proof (cases i)
  case (FromReadyChan e)
  then obtain p1 where "registerReady now e p = Some (Inr p1)" "out = Continue p1"
    using assms by (auto simp: publishLoop_def andThen_returns)
  then show ?thesis using registerReady_parkedInv assms(2) by simp
next
  case (FromSpoolChan sp)
  show ?thesis
  proof (cases "readyHead p")
    case None
    then show ?thesis using assms FromSpoolChan by (auto simp: publishLoop_def parkedInv_def)
  next
    case (Some h)
    have "nextSpool p = None" using assms(2) Some by (auto simp: parkedInv_def)
    let ?q = "upd_ep h (\<lambda>x. x\<lparr>Ready := False\<rparr>) p"
    obtain p1 h1 where p1: "sendPayload now h sp ?q = Some (Inr p1)"
      and out: "out = Continue (p1\<lparr>readyHead := NextReady (endpoints p1 h1)\<rparr>)"
      using assms FromSpoolChan Some
      by (auto simp: publishLoop_def andThen_returns panic_def split: option.splits)
    have "nextSpool p1 = None"
      using sendPayload_steady [OF p1] \<open>nextSpool p = None\<close> by (simp add: steady_def)
    then show ?thesis by (simp add: out parkedInv_def)
  qed
next
  case (FromResponseChan e resp)
  show ?thesis
  proof (cases resp)
    case (AckResponse msg)
    then obtain p1 where "processAck now e msg p = Some (Inr p1)" "stateAfter out = p1"
      using assms FromResponseChan
      by (auto simp: publishLoop_def andThen_returns split: if_splits)
    then show ?thesis using processAck_parkedInv assms(2) by simp
  next
    case PongResponse
    then obtain r where r: "processPong now e p = Some (Inr r)"
      and out: "stateAfter out = (case fst r of Some err \<Rightarrow> failEndpoint e err (snd r) | None \<Rightarrow> snd r)"
      using assms FromResponseChan
      by (auto simp: publishLoop_def andThen_returns split: option.splits)
    have "parkedInv (snd r)" using processPong_steady [OF r] assms(2) by (rule steady_parkedInv)
    then show ?thesis by (simp add: out failEndpoint_def parkedInv_def split: option.splits)
  next
    case OtherResponse
    then show ?thesis
      using assms FromResponseChan by (auto simp: publishLoop_def failEndpoint_def parkedInv_def)
  qed
next
  case (FromFailChan e err)
  then show ?thesis using assms by (auto simp: publishLoop_def failEndpoint_def parkedInv_def)
next
  case FromTimeoutTimer
  then obtain p1 where "timerFired now p = Some (Inr p1)" "out = Continue p1"
    using assms by (auto simp: publishLoop_def andThen_returns)
  then show ?thesis using timerFired_steady steady_parkedInv assms(2) by fastforce
next
  case FromStatsTimer
  then show ?thesis using assms by (auto simp: publishLoop_def)
next
  case FromOnShutdown
  then show ?thesis using assms by (auto simp: publishLoop_def parkedInv_def split: if_splits)
qed

lemma loopOn_parkedInv:
  assumes "loopOn inputs p = Some (Inr (Inl p'))" "parkedInv p"
  shows "parkedInv p'"
  using assms
proof (induction inputs arbitrary: p)
  case Nil
  then show ?case by simp
next
  case (Cons ti rest)
  show ?case
  proof (cases "selectable (fst ti) (snd ti) p")
    case False
    then show ?thesis using Cons by simp
  next
    case True
    then obtain out where out: "publishLoop (fst ti) (snd ti) p = Some (Inr out)"
      and rest: "(case out of Continue p1 \<Rightarrow> loopOn rest p1 | Break p1 \<Rightarrow> ok (Inr (afterLoop p1)))
          = Some (Inr (Inl p'))"
      using Cons.prems(1) by (auto simp: andThen_returns)
    obtain p1 where p1: "out = Continue p1" "loopOn rest p1 = Some (Inr (Inl p'))"
      using rest by (cases out) auto
    have "parkedInv p1"
      using publishLoop_parkedInv [OF out Cons.prems(2) True] p1 by simp
    then show ?thesis using Cons.IH [OF p1(2)] by simp
  qed
qed

section \<open>The ready list\<close>

lemma walkReady_linked:
  assumes "linked (\<lambda>r. NextReady (eps r)) y ys"
  shows "walkReady eps n prev y =
           Some (last (prev # takeWhile (\<lambda>x. NumPending (eps x) \<le> n) ys),
                 headOf (dropWhile (\<lambda>x. NumPending (eps x) \<le> n) ys))"
  using assms
proof (induction ys arbitrary: prev y)
  case Nil
  then show ?case by (subst walkReady.simps) simp
next
  case (Cons a ys)
  then have y: "y = Some a" and rest: "linked (\<lambda>r. NextReady (eps r)) (NextReady (eps a)) ys"
    by simp_all
  show ?case
    by (subst walkReady.simps) (simp add: y Cons.IH [OF rest] not_less)
qed

lemma addReady_spec:
  assumes rl: "linked (\<lambda>r. NextReady (endpoints p r)) (readyHead p) xs" and new: "e \<notin> set xs"
  defines "front \<equiv> takeWhile (\<lambda>x. NumPending (endpoints p x) \<le> NumPending (endpoints p e)) xs"
    and "rear \<equiv> dropWhile (\<lambda>x. NumPending (endpoints p x) \<le> NumPending (endpoints p e)) xs"
  shows "\<exists>p'. addReady e p = Some (Inr p') \<and>
           linked (\<lambda>r. NextReady (endpoints p' r)) (readyHead p') (front @ e # rear) \<and>
           readyHead p' = (if front = [] then Some e else readyHead p) \<and>
           (\<forall>x. Ready (endpoints p' x) = (x = e \<or> Ready (endpoints p x))) \<and>
           (\<forall>x. pending (endpoints p' x) = pending (endpoints p x))"
proof -
  define n where "n = NumPending (endpoints p e)"
  define p1 where "p1 = upd_ep e (\<lambda>x. x\<lparr>Ready := True\<rparr>) p"
  have np: "\<And>x. NumPending (endpoints p1 x) = NumPending (endpoints p x)"
    by (simp add: p1_def NumPending_def)
  have nx: "\<And>x. NextReady (endpoints p1 x) = NextReady (endpoints p x)"
    by (simp add: p1_def)
  have split: "xs = front @ rear" by (simp add: front_def rear_def)
  show ?thesis
  proof (cases "xs = [] \<or> n < NumPending (endpoints p (hd xs))")
    case True
    then have fr: "front = []" "rear = xs"
      by (cases xs; auto simp: front_def rear_def n_def)+
    have hd: "readyHead p = None \<or> n < NumPending (endpoints p (the (readyHead p)))"
      using True rl by (cases xs) (auto simp: n_def)
    define p' where "p' = (upd_ep e (\<lambda>x. x\<lparr>NextReady := readyHead p\<rparr>) p1)\<lparr>readyHead := Some e\<rparr>"
    have run: "addReady e p = Some (Inr p')"
      using hd unfolding addReady_def Let_def p1_def [symmetric]
      by (auto simp: NumPending_def n_def p'_def p1_def ok_def)
    have "(\<lambda>r. NextReady (endpoints p' r)) = (\<lambda>r. NextReady (endpoints p r))(e := readyHead p)"
      by (auto simp: p'_def p1_def fun_eq_iff)
    then have "linked (\<lambda>r. NextReady (endpoints p' r)) (readyHead p) xs"
      using rl new by (simp add: linked_upd_notin)
    moreover have "NextReady (endpoints p' e) = readyHead p" by (simp add: p'_def)
    ultimately have "linked (\<lambda>r. NextReady (endpoints p' r)) (readyHead p') (front @ e # rear)"
      by (simp add: fr p'_def)
    moreover have "readyHead p' = Some e" by (simp add: p'_def)
    moreover have "\<forall>x. Ready (endpoints p' x) = (x = e \<or> Ready (endpoints p x))"
      "\<forall>x. pending (endpoints p' x) = pending (endpoints p x)"
      by (auto simp: p'_def p1_def)
    ultimately show ?thesis using run fr by auto
  next
    case False
    then obtain y ys' where xs: "xs = y # ys'" and le: "NumPending (endpoints p y) \<le> n"
      by (cases xs) auto
    have hd: "readyHead p = Some y" using rl xs by simp
    then have hd1: "readyHead p1 = Some y" by (simp add: p1_def)
    have front_eq: "front = y # takeWhile (\<lambda>x. NumPending (endpoints p x) \<le> n) ys'"
      and rear_eq: "rear = dropWhile (\<lambda>x. NumPending (endpoints p x) \<le> n) ys'"
      using le xs by (simp_all add: front_def rear_def n_def)
    have fne: "front \<noteq> []" using front_eq by simp
    have "linked (\<lambda>r. NextReady (endpoints p1 r)) (NextReady (endpoints p1 y)) ys'"
      using rl xs by (simp add: nx)
    then have "walkReady (endpoints p1) n y (NextReady (endpoints p1 y)) =
        Some (last (y # takeWhile (\<lambda>x. NumPending (endpoints p1 x) \<le> n) ys'),
              headOf (dropWhile (\<lambda>x. NumPending (endpoints p1 x) \<le> n) ys'))"
      by (rule walkReady_linked)
    then have walk: "walkReady (endpoints p1) n y (NextReady (endpoints p1 y)) =
        Some (last front, headOf rear)"
      by (simp add: np front_eq rear_eq)
    define p' where "p' = upd_ep e (\<lambda>x. x\<lparr>NextReady := headOf rear\<rparr>)
        (upd_ep (last front) (\<lambda>x. x\<lparr>NextReady := Some e\<rparr>) p1)"
    have run: "addReady e p = Some (Inr p')"
      unfolding addReady_def Let_def p1_def [symmetric]
      using le walk by (simp add: np n_def [symmetric] hd1 p'_def ok_def returns_def)
    have "last front \<in> set front" using fne by simp
    then have lf: "last front \<in> set xs" "last front \<noteq> e"
      using split new by auto
    have "linked (\<lambda>r. NextReady (endpoints p' r)) (readyHead p) (front @ e # rear)"
    proof (rule linked_insert [where nxt = "\<lambda>r. NextReady (endpoints p r)"])
      show "linked (\<lambda>r. NextReady (endpoints p r)) (readyHead p) (front @ rear)"
        using rl split by simp
      show "front \<noteq> []" by (rule fne)
      show "e \<notin> set (front @ rear)" using new split by simp
      show "NextReady (endpoints p' (last front)) = Some e"
        using lf by (simp add: p'_def)
      show "NextReady (endpoints p' e) = headOf rear" by (simp add: p'_def)
      show "NextReady (endpoints p' a) = NextReady (endpoints p a)"
        if "a \<in> set (front @ rear)" "a \<noteq> last front" for a
        using that new split by (auto simp: p'_def p1_def)
    qed
    moreover have "readyHead p' = readyHead p" by (simp add: p'_def p1_def)
    moreover have "\<forall>x. Ready (endpoints p' x) = (x = e \<or> Ready (endpoints p x))"
      "\<forall>x. pending (endpoints p' x) = pending (endpoints p x)"
      using lf by (auto simp: p'_def p1_def)
    ultimately show ?thesis using run fne by auto
  qed
qed

lemma sorted_ready_insert:
  fixes load :: "ref \<Rightarrow> int"
  assumes "sorted (map load xs)"
  shows "sorted (map load (takeWhile (\<lambda>x. load x \<le> load e) xs @ e #
           dropWhile (\<lambda>x. load x \<le> load e) xs))"
proof -
  have "sorted (map load (takeWhile (\<lambda>x. load x \<le> load e) xs @
      dropWhile (\<lambda>x. load x \<le> load e) xs))"
    using assms by simp
  then have "sorted (map load (takeWhile (\<lambda>x. load x \<le> load e) xs))"
    "sorted (map load (dropWhile (\<lambda>x. load x \<le> load e) xs))"
    unfolding map_append sorted_append by simp_all
  moreover have "\<forall>x\<in>set (takeWhile (\<lambda>x. load x \<le> load e) xs). load x \<le> load e"
    by (auto dest: set_takeWhileD)
  moreover have "\<forall>y\<in>set (dropWhile (\<lambda>x. load x \<le> load e) xs). load e < load y"
  proof (cases "dropWhile (\<lambda>x. load x \<le> load e) xs")
    case Nil
    show ?thesis unfolding Nil by simp
  next
    case (Cons a as)
    then have "load e < load a" using hd_dropWhile [of "\<lambda>x. load x \<le> load e" xs] by auto
    moreover have "sorted (map load (a # as))"
      using \<open>sorted (map load (dropWhile (\<lambda>x. load x \<le> load e) xs))\<close> Cons by simp
    ultimately show ?thesis using Cons by fastforce
  qed
  ultimately show ?thesis
    using sorted_between [of load _ _ "load e"] by simp
qed

lemma dispatch_spec:
  assumes rl: "linked (\<lambda>r. NextReady (endpoints p r)) (readyHead p) (h # rest)"
    and inv: "timerInv p" and q: "firstPayload p \<noteq> None \<longrightarrow> lastPayload p \<noteq> None"
    and ne: "evs \<noteq> []"
  shows "\<exists>p'. publishLoop now (FromSpoolChan (Some evs)) p = Some (Inr (Continue p')) \<and>
           linked (\<lambda>r. NextReady (endpoints p' r)) (readyHead p') rest \<and>
           (\<forall>x. Ready (endpoints p' x) = (x \<noteq> h \<and> Ready (endpoints p x))) \<and>
           events (payloads p' (nextRef p)) = evs \<and>
           (\<forall>x. pending (endpoints p' x) =
              (if x = h then pending (endpoints p h) @ [nextRef p] else pending (endpoints p x))) \<and>
           calls p' = calls p @ EndpointSendPayload h (nextRef p) #
             (if transportOk (endpoints p h) then [] else [EndpointFailed h ErrTransport])"
proof -
  let ?q = "upd_ep h (\<lambda>x. x\<lparr>Ready := False\<rparr>) p"
  have hd: "readyHead p = Some h" and tl: "linked (\<lambda>r. NextReady (endpoints p r)) (NextReady (endpoints p h)) rest"
    using rl by simp_all
  have iq: "timerInv ?q" using inv by (subst timerInv_cong [of ?q p]) simp_all
  have qq: "firstPayload ?q \<noteq> None \<longrightarrow> lastPayload ?q \<noteq> None" using q by simp
  obtain p1 where p1: "sendPayload now h (Some evs) ?q = Some (Inr p1)"
    "events (payloads p1 (nextRef ?q)) = evs"
    "\<forall>x. pending (endpoints p1 x) =
        (if x = h then pending (endpoints ?q h) @ [nextRef ?q] else pending (endpoints ?q x))"
    "\<forall>x. Ready (endpoints p1 x) = Ready (endpoints ?q x)"
    "\<forall>x. NextReady (endpoints p1 x) = NextReady (endpoints ?q x)"
    "calls p1 = calls ?q @ EndpointSendPayload h (nextRef ?q) #
       (if transportOk (endpoints ?q h) then [] else [EndpointFailed h ErrTransport])"
    using sendPayload_sends [OF iq qq ne, of now h] by blast
  have rh: "readyHead p1 = Some h"
    using sendPayload_steady [OF p1(1)] hd by (simp add: steady_def)
  define p' where "p' = p1\<lparr>readyHead := NextReady (endpoints p1 h)\<rparr>"
  have run: "publishLoop now (FromSpoolChan (Some evs)) p = Some (Inr (Continue p'))"
    using hd p1(1) rh by (simp add: publishLoop_def p'_def ok_def)
  have nx: "\<And>x. NextReady (endpoints p1 x) = NextReady (endpoints p x)"
    using p1(5) by simp
  have "linked (\<lambda>r. NextReady (endpoints p' r)) (readyHead p') rest"
    using tl by (simp add: p'_def nx)
  moreover have "\<forall>x. Ready (endpoints p' x) = (x \<noteq> h \<and> Ready (endpoints p x))"
    using p1(4) by (simp add: p'_def)
  moreover have "events (payloads p' (nextRef p)) = evs" using p1(2) by (simp add: p'_def)
  moreover have "\<forall>x. pending (endpoints p' x) =
      (if x = h then pending (endpoints p h) @ [nextRef p] else pending (endpoints p x))"
    using p1(3) by (simp add: p'_def)
  moreover have "calls p' = calls p @ EndpointSendPayload h (nextRef p) #
      (if transportOk (endpoints p h) then [] else [EndpointFailed h ErrTransport])"
    using p1(6) by (simp add: p'_def calls_def)
  ultimately show ?thesis using run by blast
qed

section \<open>The loop of processAck\<close>




section \<open>What reaches the registrar\<close>





section \<open>An acknowledgement for the head of the queue\<close>







section \<open>The ready list holds the endpoints marked ready\<close>

lemma sameReady_refl [simp]: "sameReady p p"
  by (simp add: sameReady_def)

lemma sameReady_trans: "sameReady p q \<Longrightarrow> sameReady q r \<Longrightarrow> sameReady p r"
  by (simp add: sameReady_def)

lemma sameReady_readyInv: "sameReady p p' \<Longrightarrow> readyInv p \<Longrightarrow> readyInv p'"
  by (simp add: sameReady_def readyInv_def)

lemma sameReady_cong:
  assumes "readyHead q' = readyHead q"
    and "\<And>r. NextReady (endpoints q' r) = NextReady (endpoints q r)"
    and "\<And>r. Ready (endpoints q' r) = Ready (endpoints q r)"
  shows "sameReady p q' \<longleftrightarrow> sameReady p q"
  using assms by (simp add: sameReady_def)

lemma sameReady_upd_ep [simp]:
  assumes "NextReady (f (endpoints q r)) = NextReady (endpoints q r)"
    and "Ready (f (endpoints q r)) = Ready (endpoints q r)"
  shows "sameReady p (upd_ep r f q) \<longleftrightarrow> sameReady p q"
  using assms by (intro sameReady_cong) simp_all

lemma sameReady_simps [simp]:
  "sameReady p (emit x q) \<longleftrightarrow> sameReady p q"
  "sameReady p (upd_pl r g q) \<longleftrightarrow> sameReady p q"
  "sameReady p (q\<lparr>firstPayload := a\<rparr>) \<longleftrightarrow> sameReady p q"
  "sameReady p (q\<lparr>lastPayload := b\<rparr>) \<longleftrightarrow> sameReady p q"
  "sameReady p (q\<lparr>numPayloads := c\<rparr>) \<longleftrightarrow> sameReady p q"
  "sameReady p (q\<lparr>outOfSync := d\<rparr>) \<longleftrightarrow> sameReady p q"
  "sameReady p (q\<lparr>fullHead := i\<rparr>) \<longleftrightarrow> sameReady p q"
  "sameReady p (q\<lparr>payloads := m\<rparr>) \<longleftrightarrow> sameReady p q"
  "sameReady p (q\<lparr>nextRef := n\<rparr>) \<longleftrightarrow> sameReady p q"
  "sameReady p (q\<lparr>timeoutHead := h\<rparr>) \<longleftrightarrow> sameReady p q"
  "sameReady p (q\<lparr>timeoutTimer := t\<rparr>) \<longleftrightarrow> sameReady p q"
  "sameReady p (q\<lparr>nextSpool := s\<rparr>) \<longleftrightarrow> sameReady p q"
  "sameReady p (q\<lparr>ifSpoolChan := g1\<rparr>) \<longleftrightarrow> sameReady p q"
  "sameReady p (q\<lparr>onShutdown := g2\<rparr>) \<longleftrightarrow> sameReady p q"
  "sameReady p (q\<lparr>shuttingDown := g3\<rparr>) \<longleftrightarrow> sameReady p q"
  by (simp_all add: sameReady_def)

lemma registerTimeout_sameReady:
  assumes "registerTimeout e due f p = Some (Inr p')"
  shows "sameReady p p'"
proof -
  note fr = sansTimer_fields [OF registerTimeout_frame [OF assms]]
  show ?thesis
    using fr(7) sansTimeout_fields(1,3) [OF fr(14)] by (simp add: sameReady_def)
qed

lemma appendPayload_sameReady:
  assumes "appendPayload pl p = Some (Inr r)"
  shows "sameReady p (snd r)"
  using assms unfolding appendPayload_def Let_def
  by (auto simp: andThen_returns split: option.splits)

lemma transmit_sameReady [simp]: "sameReady p (transmit e r q) \<longleftrightarrow> sameReady p q"
  by (simp add: transmit_def Endpoint_SendPayload_def failEndpoint_def Let_def
      split: option.splits)

lemma sendPayload_sameReady:
  assumes "sendPayload now e sp p = Some (Inr p')"
  shows "sameReady p p'"
proof -
  obtain p1 where p1: "(if NumPending (endpoints p e) = 0
      then registerTimeout e (now + config_Timeout p) FnTimeoutPending p else ok p) = Some (Inr p1)"
    and rest: "(case NewPendingPayload sp of Inl err \<Rightarrow> ok p1
      | Inr pl \<Rightarrow> andThen (appendPayload pl p1) (\<lambda>r. ok (transmit e (fst r) (snd r)))) = Some (Inr p')"
    using assms unfolding sendPayload_def by (auto simp: andThen_returns)
  have "sameReady p p1" using p1 by (auto split: if_splits dest: registerTimeout_sameReady)
  moreover have "sameReady p1 p'"
    using rest by (auto simp: andThen_returns split: sum.splits dest: appendPayload_sameReady)
  ultimately show ?thesis by (rule sameReady_trans)
qed

lemma unlinkFull_sameReady [simp]: "sameReady p (unlinkFull e q) \<longleftrightarrow> sameReady p q"
  by (simp add: unlinkFull_def Let_def split: option.splits)

lemma drainAcks_sameReady:
  assumes "drainAcks payload oos q = Some p'"
  shows "sameReady q p'"
proof (rule drainAcks.raw_induct [where P = "\<lambda>a b q p'. sameReady q p'", OF _ assms], goal_cases)
  case (1 drain payload oos q p')
  let ?p1 = "emit (RegistrarAdd payload (fst (fst (Rollup (payloads q payload))))
        (snd (fst (Rollup (payloads q payload)))))
      (upd_pl payload (\<lambda>x. snd (Rollup (payloads q payload))) q)"
  let ?p2 = "?p1\<lparr>firstPayload := nextPayload (payloads ?p1 payload), outOfSync := oos - 1,
      numPayloads := numPayloads ?p1 - 1\<rparr>"
  have s2: "sameReady q ?p2" by simp
  show ?case
  proof (cases "HasAck (payloads q payload) \<and> Complete (payloads ?p1 payload) \<and>
      nextPayload (payloads ?p1 payload) \<noteq> None")
    case True
    then have "drain (the (nextPayload (payloads ?p1 payload))) (oos - 1) ?p2 = Some p'"
      using 1(2) by (auto simp: Let_def split: if_splits)
    then have "sameReady ?p2 p'" by (rule 1(1))
    with s2 show ?thesis by (rule sameReady_trans)
  next
    case False
    then show ?thesis using 1(2) by (auto simp: Let_def split: if_splits)
  qed
qed

lemma ackOrdering_sameReady:
  assumes "ackOrdering e msg p = Some (Inr p')"
  shows "sameReady p p'"
proof -
  let ?q = "snd (Endpoint_ProcessAck e msg p)"
  have q: "sameReady p ?q"
    by (simp add: Endpoint_ProcessAck_def Let_def sameReady_def)
  have "sameReady ?q p'"
    using assms unfolding ackOrdering_def Let_def
    by (auto simp: andThen_returns returns_def split: if_splits option.splits
        dest!: drainAcks_sameReady)
  with q show ?thesis by (rule sameReady_trans)
qed

lemma addReady_readyInv:
  assumes "addReady e p = Some (Inr p')" "readyInv p" "\<not> Ready (endpoints p e)"
  shows "readyInv p'"
proof -
  obtain xs where xs: "linked (\<lambda>r. NextReady (endpoints p r)) (readyHead p) xs"
    "\<forall>x. x \<in> set xs \<longleftrightarrow> Ready (endpoints p x)"
    using assms(2) by (auto simp: readyInv_def)
  have new: "e \<notin> set xs" using xs(2) assms(3) by simp
  let ?ys = "takeWhile (\<lambda>x. NumPending (endpoints p x) \<le> NumPending (endpoints p e)) xs @ e #
     dropWhile (\<lambda>x. NumPending (endpoints p x) \<le> NumPending (endpoints p e)) xs"
  obtain q where q: "addReady e p = Some (Inr q)"
    "linked (\<lambda>r. NextReady (endpoints q r)) (readyHead q) ?ys"
    "\<forall>x. Ready (endpoints q x) = (x = e \<or> Ready (endpoints p x))"
    using addReady_spec [OF xs(1) new] by blast
  have "set ?ys = insert e (set xs)"
    using set_append [of "takeWhile (\<lambda>x. NumPending (endpoints p x) \<le> NumPending (endpoints p e)) xs"
        "dropWhile (\<lambda>x. NumPending (endpoints p x) \<le> NumPending (endpoints p e)) xs"]
    by auto
  then have "\<forall>x. x \<in> set ?ys \<longleftrightarrow> Ready (endpoints q x)"
    using q(3) xs(2) by auto
  then have "readyInv q" using q(2) unfolding readyInv_def by blast
  then show ?thesis using q(1) assms(1) by simp
qed

lemma registerReady_readyInv:
  assumes "registerReady now e p = Some (Inr p')" "readyInv p"
  shows "readyInv p'"
proof (cases "Ready (endpoints p e) \<or> 4 \<le> NumPending (endpoints p e)")
  case True
  then have "sameReady p p'"
    using assms(1) unfolding registerReady_def Let_def
    by (auto simp: sameReady_def split: if_splits option.splits)
  then show ?thesis using assms(2) by (rule sameReady_readyInv)
next
  case False
  show ?thesis
  proof (cases "nextSpool p = None")
    case True
    then obtain p1 where p1: "addReady e p = Some (Inr p1)"
      and rest: "(if TimeoutFunc (endpoints p1 e) = None
          then registerTimeout e (now + keepalive_timeout) FnTimeoutKeepalive p1 else ok p1) = Some (Inr p')"
      using assms False unfolding registerReady_def by (auto simp: andThen_returns)
    have "readyInv p1" using addReady_readyInv [OF p1 assms(2)] False by simp
    moreover have "sameReady p1 p'"
      using rest by (auto split: if_splits dest!: registerTimeout_sameReady)
    ultimately show ?thesis by (rule sameReady_readyInv [rotated])
  next
    case spool: False
    then obtain p1 where p1: "sendPayload now e (nextSpool p) p = Some (Inr p1)"
      and p': "p' = p1\<lparr>nextSpool := None, ifSpoolChan := True\<rparr>"
      using assms False unfolding registerReady_def by (auto simp: andThen_returns)
    have "sameReady p p'" using sendPayload_sameReady [OF p1] by (simp add: p')
    then show ?thesis using assms(2) by (rule sameReady_readyInv)
  qed
qed

lemma processAck_readyInv:
  assumes "processAck now e msg p = Some (Inr p')" "readyInv p"
  shows "readyInv p'"
proof -
  obtain p1 p2 where p1: "ackOrdering e msg p = Some (Inr p1)"
    and p2: "(if NumPending (endpoints p1 e) \<noteq> 0
        then registerTimeout e (now + config_Timeout p1) FnTimeoutPending p1
        else registerTimeout e (now + keepalive_timeout) FnTimeoutKeepalive p1) = Some (Inr p2)"
    and p': "(if Full (endpoints p2 e) \<and> NumPending (endpoints p2 e) < 4
        then registerReady now e (unlinkFull e p2) else ok p2) = Some (Inr p')"
    using assms unfolding processAck_def by (auto simp: andThen_returns)
  have "sameReady p p1" using p1 by (rule ackOrdering_sameReady)
  moreover have "sameReady p1 p2"
    using p2 by (auto split: if_splits dest!: registerTimeout_sameReady)
  ultimately have "sameReady p p2" by (rule sameReady_trans)
  then have i2: "readyInv p2" using assms(2) by (rule sameReady_readyInv)
  then have "readyInv (unlinkFull e p2)" by (rule sameReady_readyInv [rotated]) simp
  then show ?thesis
    using p' i2 by (auto split: if_splits dest: registerReady_readyInv)
qed

lemma processPong_sameReady:
  assumes "processPong now e p = Some (Inr r)"
  shows "sameReady p (snd r)"
proof -
  let ?q = "snd (Endpoint_ProcessPong e p)"
  have q: "sameReady p ?q" by (simp add: Endpoint_ProcessPong_def sameReady_def)
  have "sameReady ?q (snd r)"
    using assms unfolding processPong_def Let_def
    by (auto simp: andThen_returns split: if_splits option.splits dest!: registerTimeout_sameReady)
  with q show ?thesis by (rule sameReady_trans)
qed

lemma fireHead_sameReady:
  assumes "fireHead now p = Some (Inr p')"
  shows "sameReady p p'"
proof -
  obtain x cb where x: "timeoutHead p = Some x" "TimeoutFunc (endpoints p x) = Some cb"
    using assms by (auto simp: fireHead_def Let_def split: option.splits)
  let ?q = "upd_ep x (\<lambda>e. e\<lparr>TimeoutFunc := None\<rparr>) (p\<lparr>timeoutHead := NextTimeout (endpoints p x)\<rparr>)"
  have call: "callTimeoutFunc cb now x ?q = Some (Inr p')"
    using assms x by (simp add: fireHead_def Let_def)
  have q: "sameReady p ?q" by (simp add: sameReady_def)
  have "sameReady ?q p'"
  proof (cases cb)
    case FnTimeoutPending
    then have "p' = timeoutPending x ?q" using call by (simp add: callTimeoutFunc_def)
    then show ?thesis
      by (simp add: sameReady_def timeoutPending_def failEndpoint_def)
  next
    case FnTimeoutKeepalive
    then obtain p1 where p1: "registerTimeout x (now + config_Timeout ?q) FnTimeoutPending ?q = Some (Inr p1)"
      and p': "p' = (case fst (Endpoint_SendPing x p1) of
            Some err \<Rightarrow> failEndpoint x err (snd (Endpoint_SendPing x p1))
          | None \<Rightarrow> snd (Endpoint_SendPing x p1))"
      using call
      by (auto simp: callTimeoutFunc_def timeoutKeepalive_def andThen_returns Let_def
          split: option.splits)
    have "sameReady ?q p1" using p1 by (rule registerTimeout_sameReady)
    moreover have "sameReady p1 p'"
      unfolding p' by (simp add: Endpoint_SendPing_def failEndpoint_def Let_def sameReady_def
          split: option.splits)
    ultimately show ?thesis by (rule sameReady_trans)
  qed
  with q show ?thesis by (rule sameReady_trans)
qed

lemma processTimeouts_sameReady:
  assumes "processTimeouts now p = Some (Inr p')"
  shows "sameReady p p'"
proof -
  have "\<forall>q. (Inr p' :: fault + Publisher) = Inr q \<longrightarrow> sameReady p q"
  proof (rule processTimeouts.raw_induct [where P = "\<lambda>now p r. \<forall>q. r = Inr q \<longrightarrow> sameReady p q",
        OF _ assms], goal_cases)
    case (1 loop now p r)
    show ?case
    proof (intro allI impI)
      fix p' assume r: "r = Inr p'"
      then obtain p1 where p1: "fireHead now p = Some (Inr p1)"
        and rest: "(if timeoutHead p1 = None \<or> now < TimeoutDue (endpoints p1 (the (timeoutHead p1)))
            then ok p1 else loop now p1) = Some (Inr p')"
        using 1(2) by (auto simp: andThen_returns)
      note f1 = fireHead_sameReady [OF p1]
      show "sameReady p p'"
      proof (cases "timeoutHead p1 = None \<or> now < TimeoutDue (endpoints p1 (the (timeoutHead p1)))")
        case True
        then have "p' = p1" using rest by (auto split: if_splits)
        then show ?thesis using f1 by simp
      next
        case False
        then have "loop now p1 = Some (Inr p')" using rest by (auto split: if_splits)
        then have "sameReady p1 p'" using 1(1) by blast
        with f1 show ?thesis by (rule sameReady_trans)
      qed
    qed
  qed
  then show ?thesis by simp
qed

lemma timerFired_sameReady:
  assumes "timerFired now p = Some (Inr p')"
  shows "sameReady p p'"
proof -
  obtain p1 where p1: "processTimeouts now (p\<lparr>timeoutTimer := None\<rparr>) = Some (Inr p1)"
    and p': "(case timeoutHead p1 of None \<Rightarrow> ok p1
        | Some h \<Rightarrow> setTimer (upd_ep h (\<lambda>x. x\<lparr>PrevTimeout := None\<rparr>) p1)) = Some (Inr p')"
    using assms by (auto simp: timerFired_def andThen_returns)
  have "sameReady p1 p'"
    using p' by (auto simp: setTimer_def split: option.splits)
  moreover have "sameReady p p1"
    using processTimeouts_sameReady [OF p1] by (simp add: sameReady_def)
  ultimately show ?thesis by (rule sameReady_trans [rotated])
qed

lemma publishLoop_readyInv:
  assumes "publishLoop now i p = Some (Inr out)" "readyInv p"
  shows "readyInv (stateAfter out)"
proof (cases i)
  case (FromReadyChan e)
  then obtain p1 where "registerReady now e p = Some (Inr p1)" "out = Continue p1"
    using assms by (auto simp: publishLoop_def andThen_returns)
  then show ?thesis using registerReady_readyInv assms(2) by simp
next
  case (FromSpoolChan sp)
  show ?thesis
  proof (cases "readyHead p")
    case None
    then have "sameReady p (stateAfter out)"
      using assms FromSpoolChan by (auto simp: publishLoop_def)
    then show ?thesis using assms(2) by (rule sameReady_readyInv)
  next
    case (Some h)
    let ?q = "upd_ep h (\<lambda>x. x\<lparr>Ready := False\<rparr>) p"
    obtain p1 h1 where p1: "sendPayload now h sp ?q = Some (Inr p1)"
      and h1: "readyHead p1 = Some h1"
      and out: "out = Continue (p1\<lparr>readyHead := NextReady (endpoints p1 h1)\<rparr>)"
      using assms FromSpoolChan Some
      by (auto simp: publishLoop_def andThen_returns panic_def split: option.splits)
    note s = sendPayload_sameReady [OF p1]
    obtain xs where xs: "linked (\<lambda>r. NextReady (endpoints p r)) (readyHead p) xs"
      "\<forall>x. x \<in> set xs \<longleftrightarrow> Ready (endpoints p x)"
      using assms(2) by (auto simp: readyInv_def)
    obtain rest where r: "xs = h # rest" using xs(1) Some by (cases xs) auto
    have d: "h \<notin> set rest" using linked_distinct [OF xs(1)] r by simp
    have hh: "h1 = h" using s h1 Some by (simp add: sameReady_def)
    let ?p' = "p1\<lparr>readyHead := NextReady (endpoints p1 h1)\<rparr>"
    have nx: "\<And>x. NextReady (endpoints ?p' x) = NextReady (endpoints p x)"
      using s by (simp add: sameReady_def)
    have rd: "\<And>x. Ready (endpoints ?p' x) = (x \<noteq> h \<and> Ready (endpoints p x))"
      using s by (simp add: sameReady_def)
    have "linked (\<lambda>r. NextReady (endpoints ?p' r)) (readyHead ?p') rest"
      unfolding nx using xs(1) r by (simp add: hh nx [of h, symmetric])
    moreover have "\<forall>x. x \<in> set rest \<longleftrightarrow> Ready (endpoints ?p' x)"
      unfolding rd using xs(2) r d by auto
    ultimately have "readyInv ?p'" unfolding readyInv_def by blast
    then show ?thesis by (simp add: out)
  qed
next
  case (FromResponseChan e resp)
  show ?thesis
  proof (cases resp)
    case (AckResponse msg)
    then obtain p1 where "processAck now e msg p = Some (Inr p1)" "stateAfter out = p1"
      using assms FromResponseChan
      by (auto simp: publishLoop_def andThen_returns split: if_splits)
    then show ?thesis using processAck_readyInv assms(2) by simp
  next
    case PongResponse
    then obtain r where r: "processPong now e p = Some (Inr r)"
      and out: "stateAfter out = (case fst r of Some err \<Rightarrow> failEndpoint e err (snd r) | None \<Rightarrow> snd r)"
      using assms FromResponseChan
      by (auto simp: publishLoop_def andThen_returns split: option.splits)
    have "sameReady p (stateAfter out)"
      using processPong_sameReady [OF r] by (simp add: out failEndpoint_def split: option.splits)
    then show ?thesis using assms(2) by (rule sameReady_readyInv)
  next
    case OtherResponse
    then have "sameReady p (stateAfter out)"
      using assms FromResponseChan by (auto simp: publishLoop_def failEndpoint_def)
    then show ?thesis using assms(2) by (rule sameReady_readyInv)
  qed
next
  case (FromFailChan e err)
  then have "sameReady p (stateAfter out)"
    using assms by (auto simp: publishLoop_def failEndpoint_def)
  then show ?thesis using assms(2) by (rule sameReady_readyInv)
next
  case FromTimeoutTimer
  then obtain p1 where "timerFired now p = Some (Inr p1)" "out = Continue p1"
    using assms by (auto simp: publishLoop_def andThen_returns)
  then show ?thesis using timerFired_sameReady sameReady_readyInv assms(2) by fastforce
next
  case FromStatsTimer
  then show ?thesis using assms by (auto simp: publishLoop_def)
next
  case FromOnShutdown
  then have "sameReady p (stateAfter out)"
    using assms by (auto simp: publishLoop_def split: if_splits)
  then show ?thesis using assms(2) by (rule sameReady_readyInv)
qed

lemma loopOn_readyInv:
  assumes "loopOn inputs p = Some (Inr (Inl p'))" "readyInv p"
  shows "readyInv p'"
  using assms
proof (induction inputs arbitrary: p)
  case Nil
  then show ?case by simp
next
  case (Cons ti rest)
  show ?case
  proof (cases "selectable (fst ti) (snd ti) p")
    case False
    then show ?thesis using Cons by simp
  next
    case True
    then obtain out where out: "publishLoop (fst ti) (snd ti) p = Some (Inr out)"
      and rest: "(case out of Continue p1 \<Rightarrow> loopOn rest p1 | Break p1 \<Rightarrow> ok (Inr (afterLoop p1)))
          = Some (Inr (Inl p'))"
      using Cons.prems(1) by (auto simp: andThen_returns)
    obtain p1 where p1: "out = Continue p1" "loopOn rest p1 = Some (Inr (Inl p'))"
      using rest by (cases out) auto
    have "readyInv p1"
      using publishLoop_readyInv [OF out Cons.prems(2)] p1 by simp
    then show ?thesis using Cons.IH [OF p1(2)] by simp
  qed
qed

lemma NewPublisher_readyInv:
  assumes "\<forall>x. \<not> Ready (eps x)"
  shows "readyInv (beforeLoop (NewPublisher timeout eps))"
  using assms by (simp add: readyInv_def beforeLoop_def NewPublisher_def exI [of _ "[]"])

section \<open>The last payload is there when the first is\<close>

lemma keepsLast_refl [simp]: "keepsLast p p"
  by (simp add: keepsLast_def)

lemma keepsLast_trans: "keepsLast p q \<Longrightarrow> keepsLast q r \<Longrightarrow> keepsLast p r"
  by (auto simp: keepsLast_def)

lemma keepsLast_queueOk: "keepsLast p p' \<Longrightarrow> queueOk p \<Longrightarrow> queueOk p'"
  by (auto simp: keepsLast_def queueOk_def)

lemma keepsLast_same:
  "firstPayload p' = firstPayload p \<Longrightarrow> lastPayload p' = lastPayload p \<Longrightarrow> keepsLast p p'"
  by (simp add: keepsLast_def)

lemma keepsLast_cong:
  assumes "firstPayload q' = firstPayload q" "lastPayload q' = lastPayload q"
  shows "keepsLast p q' \<longleftrightarrow> keepsLast p q"
  using assms by (simp add: keepsLast_def)

lemma keepsLast_simps [simp]:
  "keepsLast p (emit x q) \<longleftrightarrow> keepsLast p q"
  "keepsLast p (upd_pl r g q) \<longleftrightarrow> keepsLast p q"
  "keepsLast p (upd_ep r f q) \<longleftrightarrow> keepsLast p q"
  "keepsLast p (q\<lparr>numPayloads := c\<rparr>) \<longleftrightarrow> keepsLast p q"
  "keepsLast p (q\<lparr>outOfSync := d\<rparr>) \<longleftrightarrow> keepsLast p q"
  "keepsLast p (q\<lparr>fullHead := i\<rparr>) \<longleftrightarrow> keepsLast p q"
  "keepsLast p (q\<lparr>readyHead := j\<rparr>) \<longleftrightarrow> keepsLast p q"
  "keepsLast p (q\<lparr>payloads := m\<rparr>) \<longleftrightarrow> keepsLast p q"
  "keepsLast p (q\<lparr>nextRef := n\<rparr>) \<longleftrightarrow> keepsLast p q"
  "keepsLast p (q\<lparr>timeoutHead := h\<rparr>) \<longleftrightarrow> keepsLast p q"
  "keepsLast p (q\<lparr>timeoutTimer := t\<rparr>) \<longleftrightarrow> keepsLast p q"
  "keepsLast p (q\<lparr>nextSpool := s\<rparr>) \<longleftrightarrow> keepsLast p q"
  "keepsLast p (q\<lparr>ifSpoolChan := g1\<rparr>) \<longleftrightarrow> keepsLast p q"
  "keepsLast p (q\<lparr>onShutdown := g2\<rparr>) \<longleftrightarrow> keepsLast p q"
  "keepsLast p (q\<lparr>shuttingDown := g3\<rparr>) \<longleftrightarrow> keepsLast p q"
  by (rule keepsLast_cong; simp)+

lemma registerTimeout_keepsLast:
  assumes "registerTimeout e due f p = Some (Inr p')"
  shows "keepsLast p p'"
proof -
  note fr = sansTimer_fields [OF registerTimeout_frame [OF assms]]
  show ?thesis using fr(2,3) by (rule keepsLast_same)
qed

lemma appendPayload_keepsLast:
  assumes "appendPayload pl p = Some (Inr r)"
  shows "keepsLast p (snd r)"
  using assms unfolding appendPayload_def Let_def
  by (auto simp: andThen_returns keepsLast_def split: option.splits)

lemma transmit_keepsLast [simp]: "keepsLast p (transmit e r q) \<longleftrightarrow> keepsLast p q"
  by (simp add: transmit_def Endpoint_SendPayload_def failEndpoint_def Let_def
      split: option.splits)

lemma sendPayload_keepsLast:
  assumes "sendPayload now e sp p = Some (Inr p')"
  shows "keepsLast p p'"
proof -
  obtain p1 where p1: "(if NumPending (endpoints p e) = 0
      then registerTimeout e (now + config_Timeout p) FnTimeoutPending p else ok p) = Some (Inr p1)"
    and rest: "(case NewPendingPayload sp of Inl err \<Rightarrow> ok p1
      | Inr pl \<Rightarrow> andThen (appendPayload pl p1) (\<lambda>r. ok (transmit e (fst r) (snd r)))) = Some (Inr p')"
    using assms unfolding sendPayload_def by (auto simp: andThen_returns)
  have "keepsLast p p1" using p1 by (auto split: if_splits dest: registerTimeout_keepsLast)
  moreover have "keepsLast p1 p'"
    using rest by (auto simp: andThen_returns split: sum.splits dest: appendPayload_keepsLast)
  ultimately show ?thesis by (rule keepsLast_trans)
qed

lemma unlinkFull_keepsLast [simp]: "keepsLast p (unlinkFull e q) \<longleftrightarrow> keepsLast p q"
  by (simp add: unlinkFull_def Let_def split: option.splits)

lemma addReady_keepsLast:
  assumes "addReady e p = Some (Inr p')"
  shows "keepsLast p p'"
  using assms unfolding addReady_def Let_def
  by (auto simp: andThen_returns split: if_splits prod.splits)

lemma registerReady_keepsLast:
  assumes "registerReady now e p = Some (Inr p')"
  shows "keepsLast p p'"
proof (cases "Ready (endpoints p e) \<or> 4 \<le> NumPending (endpoints p e)")
  case True
  then show ?thesis
    using assms unfolding registerReady_def Let_def
    by (auto split: if_splits option.splits)
next
  case False
  show ?thesis
  proof (cases "nextSpool p = None")
    case True
    then obtain p1 where p1: "addReady e p = Some (Inr p1)"
      and rest: "(if TimeoutFunc (endpoints p1 e) = None
          then registerTimeout e (now + keepalive_timeout) FnTimeoutKeepalive p1 else ok p1) = Some (Inr p')"
      using assms False unfolding registerReady_def by (auto simp: andThen_returns)
    have "keepsLast p p1" using p1 by (rule addReady_keepsLast)
    moreover have "keepsLast p1 p'"
      using rest by (auto split: if_splits dest!: registerTimeout_keepsLast)
    ultimately show ?thesis by (rule keepsLast_trans)
  next
    case spool: False
    then obtain p1 where p1: "sendPayload now e (nextSpool p) p = Some (Inr p1)"
      and p': "p' = p1\<lparr>nextSpool := None, ifSpoolChan := True\<rparr>"
      using assms False unfolding registerReady_def by (auto simp: andThen_returns)
    show ?thesis using sendPayload_keepsLast [OF p1] by (simp add: p')
  qed
qed

lemma drainAcks_lastPayload:
  assumes "drainAcks payload oos q = Some p'"
  shows "lastPayload p' = lastPayload q"
proof (rule drainAcks.raw_induct [where P = "\<lambda>a b q p'. lastPayload p' = lastPayload q", OF _ assms],
    goal_cases)
  case (1 drain payload oos q p')
  let ?p1 = "emit (RegistrarAdd payload (fst (fst (Rollup (payloads q payload))))
        (snd (fst (Rollup (payloads q payload)))))
      (upd_pl payload (\<lambda>x. snd (Rollup (payloads q payload))) q)"
  let ?p2 = "?p1\<lparr>firstPayload := nextPayload (payloads ?p1 payload), outOfSync := oos - 1,
      numPayloads := numPayloads ?p1 - 1\<rparr>"
  have s2: "lastPayload ?p2 = lastPayload q" by simp
  show ?case
  proof (cases "HasAck (payloads q payload) \<and> Complete (payloads ?p1 payload) \<and>
      nextPayload (payloads ?p1 payload) \<noteq> None")
    case True
    then have "drain (the (nextPayload (payloads ?p1 payload))) (oos - 1) ?p2 = Some p'"
      using 1(2) by (auto simp: Let_def split: if_splits)
    then have "lastPayload p' = lastPayload ?p2" by (rule 1(1))
    with s2 show ?thesis by simp
  next
    case False
    then show ?thesis using 1(2) by (auto simp: Let_def split: if_splits)
  qed
qed

lemma ackOrdering_keepsLast:
  assumes "ackOrdering e msg p = Some (Inr p')"
  shows "keepsLast p p'"
proof -
  let ?r = "Endpoint_ProcessAck e msg p"
  let ?q = "snd ?r"
  have q: "firstPayload ?q = firstPayload p" "lastPayload ?q = lastPayload p"
    by (simp_all add: Endpoint_ProcessAck_def Let_def)
  show ?thesis
  proof (cases "fst (fst ?r) = firstPayload ?q")
    case False
    then have "keepsLast ?q p'"
      using assms unfolding ackOrdering_def Let_def by (auto split: if_splits)
    then show ?thesis using q by (simp add: keepsLast_def)
  next
    case True
    then obtain pl p1 where pl: "firstPayload ?q = Some pl"
      and d: "drainAcks pl (outOfSync ?q + 1) ?q = Some p1" and p': "p' = emit RegistrarSend p1"
      using assms unfolding ackOrdering_def Let_def
      by (auto simp: andThen_returns returns_def panic_def split: option.splits)
    have "lastPayload p' = lastPayload p"
      using drainAcks_lastPayload [OF d] q by (simp add: p')
    moreover have "firstPayload p \<noteq> None" using pl q by simp
    ultimately show ?thesis by (simp add: keepsLast_def)
  qed
qed

lemma processAck_keepsLast:
  assumes "processAck now e msg p = Some (Inr p')"
  shows "keepsLast p p'"
proof -
  obtain p1 p2 where p1: "ackOrdering e msg p = Some (Inr p1)"
    and p2: "(if NumPending (endpoints p1 e) \<noteq> 0
        then registerTimeout e (now + config_Timeout p1) FnTimeoutPending p1
        else registerTimeout e (now + keepalive_timeout) FnTimeoutKeepalive p1) = Some (Inr p2)"
    and p': "(if Full (endpoints p2 e) \<and> NumPending (endpoints p2 e) < 4
        then registerReady now e (unlinkFull e p2) else ok p2) = Some (Inr p')"
    using assms unfolding processAck_def by (auto simp: andThen_returns)
  have "keepsLast p p1" using p1 by (rule ackOrdering_keepsLast)
  moreover have "keepsLast p1 p2"
    using p2 by (auto split: if_splits dest!: registerTimeout_keepsLast)
  moreover have "keepsLast p2 p'"
  proof (cases "Full (endpoints p2 e) \<and> NumPending (endpoints p2 e) < 4")
    case True
    then have "keepsLast (unlinkFull e p2) p'" using p' by (auto dest: registerReady_keepsLast)
    moreover have "keepsLast p2 (unlinkFull e p2)" by simp
    ultimately show ?thesis by (blast intro: keepsLast_trans)
  next
    case False
    then show ?thesis using p' by (auto split: if_splits)
  qed
  ultimately show ?thesis by (blast intro: keepsLast_trans)
qed

lemma processPong_keepsLast:
  assumes "processPong now e p = Some (Inr r)"
  shows "keepsLast p (snd r)"
proof -
  let ?q = "snd (Endpoint_ProcessPong e p)"
  have q: "keepsLast p ?q" by (simp add: Endpoint_ProcessPong_def)
  have "keepsLast ?q (snd r)"
    using assms unfolding processPong_def Let_def
    by (auto simp: andThen_returns split: if_splits option.splits dest!: registerTimeout_keepsLast)
  with q show ?thesis by (rule keepsLast_trans)
qed

lemma fireHead_keepsLast:
  assumes "fireHead now p = Some (Inr p')"
  shows "keepsLast p p'"
proof -
  obtain x cb where x: "timeoutHead p = Some x" "TimeoutFunc (endpoints p x) = Some cb"
    using assms by (auto simp: fireHead_def Let_def split: option.splits)
  let ?q = "upd_ep x (\<lambda>e. e\<lparr>TimeoutFunc := None\<rparr>) (p\<lparr>timeoutHead := NextTimeout (endpoints p x)\<rparr>)"
  have call: "callTimeoutFunc cb now x ?q = Some (Inr p')"
    using assms x by (simp add: fireHead_def Let_def)
  have q: "keepsLast p ?q" by simp
  have "keepsLast ?q p'"
  proof (cases cb)
    case FnTimeoutPending
    then have "p' = timeoutPending x ?q" using call by (simp add: callTimeoutFunc_def)
    then show ?thesis
      by (simp add: timeoutPending_def failEndpoint_def)
  next
    case FnTimeoutKeepalive
    then obtain p1 where p1: "registerTimeout x (now + config_Timeout ?q) FnTimeoutPending ?q = Some (Inr p1)"
      and p': "p' = (case fst (Endpoint_SendPing x p1) of
            Some err \<Rightarrow> failEndpoint x err (snd (Endpoint_SendPing x p1))
          | None \<Rightarrow> snd (Endpoint_SendPing x p1))"
      using call
      by (auto simp: callTimeoutFunc_def timeoutKeepalive_def andThen_returns Let_def
          split: option.splits)
    have "keepsLast ?q p1" using p1 by (rule registerTimeout_keepsLast)
    moreover have "keepsLast p1 p'"
      unfolding p' by (simp add: Endpoint_SendPing_def failEndpoint_def Let_def
          split: option.splits)
    ultimately show ?thesis by (rule keepsLast_trans)
  qed
  with q show ?thesis by (rule keepsLast_trans)
qed

lemma processTimeouts_keepsLast:
  assumes "processTimeouts now p = Some (Inr p')"
  shows "keepsLast p p'"
proof -
  have "\<forall>q. (Inr p' :: fault + Publisher) = Inr q \<longrightarrow> keepsLast p q"
  proof (rule processTimeouts.raw_induct [where P = "\<lambda>now p r. \<forall>q. r = Inr q \<longrightarrow> keepsLast p q",
        OF _ assms], goal_cases)
    case (1 loop now p r)
    show ?case
    proof (intro allI impI)
      fix p' assume r: "r = Inr p'"
      then obtain p1 where p1: "fireHead now p = Some (Inr p1)"
        and rest: "(if timeoutHead p1 = None \<or> now < TimeoutDue (endpoints p1 (the (timeoutHead p1)))
            then ok p1 else loop now p1) = Some (Inr p')"
        using 1(2) by (auto simp: andThen_returns)
      note f1 = fireHead_keepsLast [OF p1]
      show "keepsLast p p'"
      proof (cases "timeoutHead p1 = None \<or> now < TimeoutDue (endpoints p1 (the (timeoutHead p1)))")
        case True
        then have "p' = p1" using rest by (auto split: if_splits)
        then show ?thesis using f1 by simp
      next
        case False
        then have "loop now p1 = Some (Inr p')" using rest by (auto split: if_splits)
        then have "keepsLast p1 p'" using 1(1) by blast
        with f1 show ?thesis by (rule keepsLast_trans)
      qed
    qed
  qed
  then show ?thesis by simp
qed

lemma timerFired_keepsLast:
  assumes "timerFired now p = Some (Inr p')"
  shows "keepsLast p p'"
proof -
  obtain p1 where p1: "processTimeouts now (p\<lparr>timeoutTimer := None\<rparr>) = Some (Inr p1)"
    and p': "(case timeoutHead p1 of None \<Rightarrow> ok p1
        | Some h \<Rightarrow> setTimer (upd_ep h (\<lambda>x. x\<lparr>PrevTimeout := None\<rparr>) p1)) = Some (Inr p')"
    using assms by (auto simp: timerFired_def andThen_returns)
  have "keepsLast p1 p'"
    using p' by (auto simp: setTimer_def split: option.splits)
  moreover have "keepsLast p p1"
    using processTimeouts_keepsLast [OF p1] by (simp add: keepsLast_def)
  ultimately show ?thesis by (rule keepsLast_trans [rotated])
qed

lemma publishLoop_keepsLast:
  assumes "publishLoop now i p = Some (Inr out)"
  shows "keepsLast p (stateAfter out)"
proof (cases i)
  case (FromReadyChan e)
  then obtain p1 where "registerReady now e p = Some (Inr p1)" "out = Continue p1"
    using assms by (auto simp: publishLoop_def andThen_returns)
  then show ?thesis using registerReady_keepsLast by simp
next
  case (FromSpoolChan sp)
  show ?thesis
  proof (cases "readyHead p")
    case None
    then show ?thesis using assms FromSpoolChan by (auto simp: publishLoop_def)
  next
    case (Some h)
    let ?q = "upd_ep h (\<lambda>x. x\<lparr>Ready := False\<rparr>) p"
    obtain p1 h1 where p1: "sendPayload now h sp ?q = Some (Inr p1)"
      and out: "out = Continue (p1\<lparr>readyHead := NextReady (endpoints p1 h1)\<rparr>)"
      using assms FromSpoolChan Some
      by (auto simp: publishLoop_def andThen_returns panic_def split: option.splits)
    have "keepsLast p ?q" by simp
    moreover have "keepsLast ?q p1" using p1 by (rule sendPayload_keepsLast)
    ultimately have "keepsLast p p1" by (rule keepsLast_trans)
    then show ?thesis by (simp add: out)
  qed
next
  case (FromResponseChan e resp)
  show ?thesis
  proof (cases resp)
    case (AckResponse msg)
    then obtain p1 where "processAck now e msg p = Some (Inr p1)" "stateAfter out = p1"
      using assms FromResponseChan
      by (auto simp: publishLoop_def andThen_returns split: if_splits)
    then show ?thesis using processAck_keepsLast by simp
  next
    case PongResponse
    then obtain r where r: "processPong now e p = Some (Inr r)"
      and out: "stateAfter out = (case fst r of Some err \<Rightarrow> failEndpoint e err (snd r) | None \<Rightarrow> snd r)"
      using assms FromResponseChan
      by (auto simp: publishLoop_def andThen_returns split: option.splits)
    show ?thesis
      using processPong_keepsLast [OF r] by (simp add: out failEndpoint_def split: option.splits)
  next
    case OtherResponse
    then show ?thesis
      using assms FromResponseChan by (auto simp: publishLoop_def failEndpoint_def)
  qed
next
  case (FromFailChan e err)
  then show ?thesis using assms by (auto simp: publishLoop_def failEndpoint_def)
next
  case FromTimeoutTimer
  then obtain p1 where "timerFired now p = Some (Inr p1)" "out = Continue p1"
    using assms by (auto simp: publishLoop_def andThen_returns)
  then show ?thesis using timerFired_keepsLast by simp
next
  case FromStatsTimer
  then show ?thesis using assms by (auto simp: publishLoop_def)
next
  case FromOnShutdown
  then show ?thesis using assms by (auto simp: publishLoop_def split: if_splits)
qed

lemma loopOn_queueOk:
  assumes "loopOn inputs p = Some (Inr (Inl p'))" "queueOk p"
  shows "queueOk p'"
  using assms
proof (induction inputs arbitrary: p)
  case Nil
  then show ?case by simp
next
  case (Cons ti rest)
  show ?case
  proof (cases "selectable (fst ti) (snd ti) p")
    case False
    then show ?thesis using Cons by simp
  next
    case True
    then obtain out where out: "publishLoop (fst ti) (snd ti) p = Some (Inr out)"
      and rest: "(case out of Continue p1 \<Rightarrow> loopOn rest p1 | Break p1 \<Rightarrow> ok (Inr (afterLoop p1)))
          = Some (Inr (Inl p'))"
      using Cons.prems(1) by (auto simp: andThen_returns)
    obtain p1 where p1: "out = Continue p1" "loopOn rest p1 = Some (Inr (Inl p'))"
      using rest by (cases out) auto
    have "queueOk p1"
      using keepsLast_queueOk [OF publishLoop_keepsLast [OF out] Cons.prems(2)] p1 by simp
    then show ?thesis using Cons.IH [OF p1(2)] by simp
  qed
qed

text \<open>What holds of every state that \<^verbatim>\<open>Run\<close> reaches from \<^verbatim>\<open>NewPublisher\<close>, with a positive
  timeout and endpoints that start in no list.\<close>

lemma reached:
  assumes "0 < timeout" and "\<forall>x. TimeoutFunc (eps x) = None \<and> \<not> Ready (eps x)"
    and "Run inputs (NewPublisher timeout eps) = Some (Inr (Inl q))"
  shows "timerInv q" "0 < config_Timeout q" "readyInv q" "queueOk q" "parkedInv q"
proof -
  let ?p0 = "beforeLoop (NewPublisher timeout eps)"
  note run = assms(3) [unfolded Run_def]
  have i0: "timerInv ?p0" using assms(2) by (intro NewPublisher_timerInv) simp
  have T0: "0 < config_Timeout ?p0" using assms(1) by (simp add: beforeLoop_def NewPublisher_def)
  show "timerInv q" "0 < config_Timeout q"
    using loopOn_timerInv [OF run i0 T0] T0 by simp_all
  have "readyInv ?p0" using assms(2) by (intro NewPublisher_readyInv) simp
  then show "readyInv q" using loopOn_readyInv [OF run] by simp
  have "queueOk ?p0" by (simp add: queueOk_def beforeLoop_def NewPublisher_def)
  then show "queueOk q" using loopOn_queueOk [OF run] by simp
  have "parkedInv ?p0" by (simp add: parkedInv_def beforeLoop_def NewPublisher_def)
  then show "parkedInv q" using loopOn_parkedInv [OF run] by simp
qed

section \<open>The queue of payloads is a proper list\<close>

lemma sameQueue_refl [simp]: "sameQueue p p"
  by (simp add: sameQueue_def)



lemma sameQueue_cong:
  assumes "firstPayload q' = firstPayload q" "lastPayload q' = lastPayload q"
    and "nextRef q' = nextRef q"
    and "\<And>r. nextPayload (payloads q' r) = nextPayload (payloads q r)"
  shows "sameQueue p q' \<longleftrightarrow> sameQueue p q"
  using assms by (simp add: sameQueue_def)

lemma sameQueue_upd_pl [simp]:
  assumes "nextPayload (g (payloads q r)) = nextPayload (payloads q r)"
  shows "sameQueue p (upd_pl r g q) \<longleftrightarrow> sameQueue p q"
  using assms by (intro sameQueue_cong) simp_all

lemma sameQueue_simps [simp]:
  "sameQueue p (emit x q) \<longleftrightarrow> sameQueue p q"
  "sameQueue p (upd_ep r f q) \<longleftrightarrow> sameQueue p q"
  "sameQueue p (q\<lparr>numPayloads := c\<rparr>) \<longleftrightarrow> sameQueue p q"
  "sameQueue p (q\<lparr>outOfSync := d\<rparr>) \<longleftrightarrow> sameQueue p q"
  "sameQueue p (q\<lparr>fullHead := i\<rparr>) \<longleftrightarrow> sameQueue p q"
  "sameQueue p (q\<lparr>readyHead := j\<rparr>) \<longleftrightarrow> sameQueue p q"
  "sameQueue p (q\<lparr>timeoutHead := h\<rparr>) \<longleftrightarrow> sameQueue p q"
  "sameQueue p (q\<lparr>timeoutTimer := t\<rparr>) \<longleftrightarrow> sameQueue p q"
  "sameQueue p (q\<lparr>nextSpool := s\<rparr>) \<longleftrightarrow> sameQueue p q"
  "sameQueue p (q\<lparr>ifSpoolChan := g1\<rparr>) \<longleftrightarrow> sameQueue p q"
  "sameQueue p (q\<lparr>onShutdown := g2\<rparr>) \<longleftrightarrow> sameQueue p q"
  "sameQueue p (q\<lparr>shuttingDown := g3\<rparr>) \<longleftrightarrow> sameQueue p q"
  by (rule sameQueue_cong; simp)+




lemma transmit_sameQueue [simp]: "sameQueue p (transmit e r q) \<longleftrightarrow> sameQueue p q"
  by (simp add: transmit_def Endpoint_SendPayload_def failEndpoint_def Let_def
      split: option.splits)


lemma unlinkFull_sameQueue [simp]: "sameQueue p (unlinkFull e q) \<longleftrightarrow> sameQueue p q"
  by (simp add: unlinkFull_def Let_def split: option.splits)













section \<open>The full list after an acknowledgement\<close>

text \<open>
  C2. When an acknowledgement drops a full endpoint below four pending payloads,
  \<^verbatim>\<open>processAck\<close> should unlink it from the full list, also when it is not the head, and
  offer it again. Evaluated on the code: before the acknowledgement the full list is
  \<open>[2, 1]\<close> and the ready list is empty; after it endpoint 1 is on the ready list and still
  on the full list, because line 290 writes \<^verbatim>\<open>endpoint.PrevFull\<close> instead of the
  predecessor's \<^verbatim>\<open>NextFull\<close>.
\<close>

theorem processAck_leaves_endpoint_on_full_list:
  "(case stateOf (Run twoFull (NewPublisher (15 * Second) (\<lambda>r. idleEndpoint))) of
      None \<Rightarrow> False
    | Some p \<Rightarrow>
        fullList 5 p = [2, 1] \<and> readyList 5 p = [] \<and>
        NumPending (endpoints p 1) = 4 \<and> Full (endpoints p 1) \<and>
        PrevFull (endpoints p 1) = Some 2 \<and>
        (case returned (processAck 20 1 (0, 1) p) of
           None \<Rightarrow> False
         | Some p' \<Rightarrow>
             NumPending (endpoints p' 1) = 3 \<and>
             readyList 5 p' = [1] \<and> fullList 5 p' = [2, 1] \<and>
             NextFull (endpoints p' 2) = Some 1 \<and> PrevFull (endpoints p' 1) = None))"
  by (simp add: twoFull_def model_defs cong: andThen_weak_cong)

section \<open>The out-of-sync count after a drain\<close>

text \<open>
  C3. Between two inputs \<^verbatim>\<open>outOfSync\<close> should be the number of payloads strictly after
  \<^verbatim>\<open>firstPayload\<close> that have an acknowledgement. Evaluated on the code: it is so after the
  first acknowledgement of payload 1 (count 1); the acknowledgement that completes payload 0
  makes payload 1 the head, nothing with an acknowledgement is behind it, and
  \<^verbatim>\<open>outOfSync\<close> is still 1.
\<close>

theorem outOfSync_counts_the_new_head:
  "(case stateOf (Run partialBehindHead (NewPublisher (15 * Second) (\<lambda>r. idleEndpoint))) of
      None \<Rightarrow> False
    | Some p \<Rightarrow>
        inFlight 5 p = [0, 1] \<and> outOfSync p = 1 \<and> ackedBehindFirst 5 p = 1 \<and>
        (case returned (processAck 4 1 (0, 3) p) of
           None \<Rightarrow> False
         | Some p' \<Rightarrow>
             inFlight 5 p' = [1] \<and> ackedBehindFirst 5 p' = 0 \<and> outOfSync p' = 1 \<and>
             registrarEffects p' =
               registrarEffects p @ [RegistrarAdd 0 0 3, RegistrarAdd 1 0 1, RegistrarSend]))"
  by (simp add: partialBehindHead_def model_defs cong: andThen_weak_cong)

section \<open>The pong\<close>

text \<open>
  C4. After a pong for an endpoint with nothing pending the timeout should be a keepalive
  timeout due at \<open>now + keepalive_timeout\<close>. Evaluated on the code, with a network timeout of
  15 seconds and a pong at time 7: the keepalive function is registered, due at 7 plus the
  network timeout (line 310 adds \<^verbatim>\<open>p.config.Timeout\<close>), not at 7 plus 900 seconds.
\<close>

theorem processPong_rearms_with_network_timeout:
  "(case returned (processPong 7 1
            (NewPublisher (15 * Second) (\<lambda>r. idleEndpoint\<lparr>pinging := True\<rparr>))) of
      None \<Rightarrow> False
    | Some r \<Rightarrow>
        fst r = None \<and>
        TimeoutFunc (endpoints (snd r) 1) = Some FnTimeoutKeepalive \<and>
        TimeoutDue (endpoints (snd r) 1) = 7 + 15 * Second \<and>
        TimeoutDue (endpoints (snd r) 1) \<noteq> 7 + keepalive_timeout \<and>
        timeoutTimer (snd r) = Some (7 + 15 * Second))"
  by (simp add: model_defs cong: andThen_weak_cong)

section \<open>A spool that is not a payload\<close>

text \<open>
  C9. When \<^verbatim>\<open>NewPendingPayload\<close> fails, \<^verbatim>\<open>sendPayload\<close> should leave the queue, the
  counter, the pending set and the timeout registration of the endpoint as they were.
  Evaluated on the code, for an endpoint that was offered at time 0 (keepalive timeout due at
  900 seconds) and an empty spool at time 5: queue, counter and pending set are unchanged,
  and the endpoint now has the pending timeout due at 5 plus the network timeout, which
  lines 198-201 register before the payload is built.
\<close>

theorem sendPayload_invalid_spool_rearms_timeout:
  "(case stateOf (Run [(0, FromReadyChan 1)] (NewPublisher (15 * Second) (\<lambda>r. idleEndpoint))) of
      None \<Rightarrow> False
    | Some p \<Rightarrow>
        TimeoutFunc (endpoints p 1) = Some FnTimeoutKeepalive \<and>
        TimeoutDue (endpoints p 1) = keepalive_timeout \<and>
        timeoutTimer p = Some keepalive_timeout \<and>
        NewPendingPayload (Some []) = Inl ErrPayloadInvalid \<and>
        (case returned (sendPayload 5 1 (Some []) p) of
           None \<Rightarrow> False
         | Some p' \<Rightarrow>
             firstPayload p' = firstPayload p \<and> lastPayload p' = lastPayload p \<and>
             numPayloads p' = numPayloads p \<and>
             pending (endpoints p' 1) = pending (endpoints p 1) \<and>
             effects p' = effects p @ [TimerReset (5 + 15 * Second)] \<and>
             TimeoutFunc (endpoints p' 1) = Some FnTimeoutPending \<and>
             TimeoutDue (endpoints p' 1) = 5 + 15 * Second \<and>
             timeoutTimer p' = Some (5 + 15 * Second)))"
  by (simp add: model_defs cong: andThen_weak_cong)


section \<open>The timeout list is kept in time order\<close>



section \<open>A timer armed on an empty timeout list\<close>

text \<open>
  C10. The timer should be armed only while \<^verbatim>\<open>timeoutHead\<close> is not \<^verbatim>\<open>nil\<close>, so that the
  timer case finds a head. Evaluated on the code, with the network timeout of 15 s.
  Endpoint 1 is offered at time 0 and takes a spool of two events at time 1 ns: its
  \<^verbatim>\<open>timeoutPending\<close> is due at 1 ns + 15 s and the timer is armed for it. At that time the
  timer sends its expiry, and the \<^verbatim>\<open>select\<close> takes an acknowledgement of one event that
  has arrived: \<^verbatim>\<open>processAck\<close> registers the timeout again, due at 1 ns + 30 s, and
  \<^verbatim>\<open>setTimer\<close> resets the timer with the expiry still in the channel. The timer case receives
  that expiry one nanosecond later: lines 152-164 take endpoint 1 off the list and call its
  \<^verbatim>\<open>timeoutPending\<close>, fifteen seconds early, the list is empty and lines 167-170 leave the
  timer as it is, armed for 1 ns + 30 s. When it fires, line 154 reads
  \<^verbatim>\<open>p.timeoutHead.NextTimeout\<close> of a \<^verbatim>\<open>nil\<close> head.
\<close>

theorem stale_timer_expiry_reaches_an_empty_list:
  "(case RunBuffered [(0, FromReadyChan 1), (1, FromSpoolChan (Some [7, 8])),
                      (1 + 15 * Second, FromResponseChan 1 (AckResponse (0, 1)))]
           (NewPublisher (15 * Second) (\<lambda>r. idleEndpoint)) of
      Some (Inr (Inl (c, p))) \<Rightarrow>
        c \<and> timeoutHead p = Some 1 \<and> timeoutTimer p = Some (1 + 30 * Second) \<and>
        TimeoutDue (endpoints p 1) = 1 + 30 * Second \<and> pending (endpoints p 1) = [0]
    | _ \<Rightarrow> False) \<and>
   (case RunBuffered [(0, FromReadyChan 1), (1, FromSpoolChan (Some [7, 8])),
                      (1 + 15 * Second, FromResponseChan 1 (AckResponse (0, 1))),
                      (2 + 15 * Second, FromTimeoutTimer)]
           (NewPublisher (15 * Second) (\<lambda>r. idleEndpoint)) of
      Some (Inr (Inl (c, p))) \<Rightarrow>
        \<not> c \<and> timeoutHead p = None \<and> timeoutTimer p = Some (1 + 30 * Second) \<and>
        last (effects p) = EndpointFailed 1 ErrNetworkTimeout
    | _ \<Rightarrow> False) \<and>
   RunBuffered [(0, FromReadyChan 1), (1, FromSpoolChan (Some [7, 8])),
                (1 + 15 * Second, FromResponseChan 1 (AckResponse (0, 1))),
                (2 + 15 * Second, FromTimeoutTimer),
                (1 + 30 * Second, FromTimeoutTimer)]
     (NewPublisher (15 * Second) (\<lambda>r. idleEndpoint)) = Some (Inl NilDereference)"
  by (simp add: buffered_defs model_defs cong: andThen_weak_cong)

text \<open>
  The same state is reached with no expiry left in the channel when the network timeout is
  zero. Endpoint 1 is offered at time 0 and waits for its keepalive timeout. When the timer
  fires, \<^verbatim>\<open>timeoutKeepalive\<close> registers \<^verbatim>\<open>timeoutPending\<close> due at \<open>now + 0\<close>, which resets the
  timer; the loop finds the new head due, takes it off the list and calls it. The list is
  empty and the timer is left armed by that \<^verbatim>\<open>Reset\<close>. The test of line 161 reads the clock
  after the callback has, so that a timeout shorter than the time between the two readings
  does the same.
\<close>

lemma timer_armed_with_empty_list_at_zero_timeout:
  "(case Run [(0, FromReadyChan 1), (keepalive_timeout, FromTimeoutTimer)]
           (NewPublisher 0 (\<lambda>r. idleEndpoint)) of
      Some (Inr (Inl p)) \<Rightarrow>
        timeoutTimer p = Some keepalive_timeout \<and> timeoutHead p = None \<and>
        selectable keepalive_timeout FromTimeoutTimer p \<and>
        publishLoop keepalive_timeout FromTimeoutTimer p = Some (Inl NilDereference)
    | _ \<Rightarrow> False)"
  by (simp add: model_defs cong: andThen_weak_cong)

section \<open>The spool channel during shutdown\<close>

text \<open>
  What the shutdown case does, and how the loop is left. A shutdown signal received with
  \<^verbatim>\<open>numPayloads == 0\<close> leaves the loop at once. Received with payloads in flight it keeps the
  loop going, sets \<^verbatim>\<open>shuttingDown\<close>, and sets both \<^verbatim>\<open>ifSpoolChan\<close> and \<^verbatim>\<open>onShutdown\<close> to
  \<^verbatim>\<open>nil\<close>, so that neither a spool nor a second shutdown signal can be received in the state
  it leaves. From then on every iteration keeps \<^verbatim>\<open>shuttingDown\<close> set and the shutdown
  channel \<^verbatim>\<open>nil\<close>, and the loop is left only by the iteration that handles an
  acknowledgement after which \<^verbatim>\<open>numPayloads\<close> is 0. A \<^verbatim>\<open>Run\<close> that has returned has left the
  loop with \<^verbatim>\<open>numPayloads == 0\<close> and has then shut the endpoint sink down, waited for it and
  closed the registrar spool, in this order. Nothing here keeps \<^verbatim>\<open>ifSpoolChan\<close> at \<^verbatim>\<open>nil\<close>
  over the later iterations.
\<close>

lemma shutdown_case_and_exit:
  "(numPayloads p = 0 \<longrightarrow> publishLoop now FromOnShutdown p = Some (Inr (Break p))) \<and>
   (numPayloads p \<noteq> 0 \<longrightarrow>
      (\<exists>p'. publishLoop now FromOnShutdown p = Some (Inr (Continue p')) \<and>
         p' = p\<lparr>onShutdown := False, ifSpoolChan := False, shuttingDown := True\<rparr> \<and>
         shuttingDown p' \<and> (\<forall>t sp. \<not> selectable t (FromSpoolChan sp) p') \<and>
         (\<forall>t. \<not> selectable t FromOnShutdown p'))) \<and>
   (shuttingDown p \<and> \<not> onShutdown p \<and> selectable now i p \<and>
    publishLoop now i p = Some (Inr out) \<longrightarrow>
      shuttingDown (stateAfter out) \<and> \<not> onShutdown (stateAfter out) \<and>
      (case out of
         Break p' \<Rightarrow>
           numPayloads p' = 0 \<and>
           (\<exists>e msg. i = FromResponseChan e (AckResponse msg) \<and>
              processAck now e msg p = Some (Inr p'))
       | Continue p' \<Rightarrow>
           (\<forall>e msg. i = FromResponseChan e (AckResponse msg) \<longrightarrow> numPayloads p' \<noteq> 0))) \<and>
   (loopOn inputs p = Some (Inr (Inr pf)) \<longrightarrow>
      (\<exists>p1. pf = afterLoop p1 \<and> numPayloads p1 = 0 \<and>
         effects pf = effects p1 @ [SinkShutdown, SinkWait, RegistrarClose, PipelineDone]))"
proof (intro conjI impI)
  assume "numPayloads p = 0"
  then show "publishLoop now FromOnShutdown p = Some (Inr (Break p))"
    by (simp add: publishLoop_def ok_def)
next
  assume "numPayloads p \<noteq> 0"
  then show "\<exists>p'. publishLoop now FromOnShutdown p = Some (Inr (Continue p')) \<and>
         p' = p\<lparr>onShutdown := False, ifSpoolChan := False, shuttingDown := True\<rparr> \<and>
         shuttingDown p' \<and> (\<forall>t sp. \<not> selectable t (FromSpoolChan sp) p') \<and>
         (\<forall>t. \<not> selectable t FromOnShutdown p')"
    by (simp add: publishLoop_def ok_def selectable_def)
next
  assume a: "shuttingDown p \<and> \<not> onShutdown p \<and> selectable now i p \<and>
    publishLoop now i p = Some (Inr out)"
  then have ne: "i \<noteq> FromOnShutdown" by (auto simp: selectable_def)
  have c: "calm p (stateAfter out)" using publishLoop_calm [of now i p out] a ne by simp
  then show "shuttingDown (stateAfter out)" using a by (simp add: calm_def)
  show "\<not> onShutdown (stateAfter out)" using a c by (simp add: calm_def)
  show "case out of
         Break p' \<Rightarrow>
           numPayloads p' = 0 \<and>
           (\<exists>e msg. i = FromResponseChan e (AckResponse msg) \<and>
              processAck now e msg p = Some (Inr p'))
       | Continue p' \<Rightarrow>
           (\<forall>e msg. i = FromResponseChan e (AckResponse msg) \<longrightarrow> numPayloads p' \<noteq> 0)"
  proof (cases out)
    case (Break p')
    then show ?thesis using publishLoop_Break [of now i p p'] a ne by auto
  next
    case (Continue p')
    have "numPayloads p' \<noteq> 0" if i: "i = FromResponseChan e (AckResponse msg)" for e msg
    proof
      assume z: "numPayloads p' = 0"
      obtain p1 where p1: "processAck now e msg p = Some (Inr p1)"
        and o: "(if shuttingDown p1 \<and> numPayloads p1 = 0 then ok (Break p1) else ok (Continue p1))
            = Some (Inr (Continue p'))"
        using a i Continue by (auto simp: publishLoop_def andThen_returns)
      have "shuttingDown p1" using processAck_calm [OF p1] a by (simp add: calm_def)
      then show False using o z by (auto split: if_splits)
    qed
    then show ?thesis using Continue by simp
  qed
next
  assume "loopOn inputs p = Some (Inr (Inr pf))"
  then obtain p1 where "pf = afterLoop p1" "numPayloads p1 = 0"
    using loopOn_exit by blast
  then show "\<exists>p1. pf = afterLoop p1 \<and> numPayloads p1 = 0 \<and>
         effects pf = effects p1 @ [SinkShutdown, SinkWait, RegistrarClose, PipelineDone]"
    by (auto simp: afterLoop_def emit_def)
qed

text \<open>
  C5. Once the shutdown signal has come with payloads in flight, the dispatcher should read
  no spool any more and leave after the acknowledgement that brings \<^verbatim>\<open>numPayloads\<close> to 0.
  Evaluated on the code: endpoint 1 takes a first spool, a second spool is parked, and the
  shutdown signal comes with one payload in flight; it leaves \<^verbatim>\<open>shuttingDown\<close> set and
  \<^verbatim>\<open>ifSpoolChan\<close> \<^verbatim>\<open>nil\<close>. Endpoint 1 is offered again: \<^verbatim>\<open>registerReady\<close> sends it the parked
  spool and line 351 sets \<^verbatim>\<open>ifSpoolChan\<close> back to the spool channel, without a look at
  \<^verbatim>\<open>shuttingDown\<close>. The spool \<open>[10]\<close> is then received from the spooler and sent to the
  endpoint as payload 2: three payloads are in flight where one was when the signal came.
\<close>

theorem spool_channel_read_again_while_shutting_down:
  "(case Run [(0, FromReadyChan 1), (1, FromSpoolChan (Some [7, 8])),
              (2, FromSpoolChan (Some [9])), (3, FromOnShutdown)]
           (NewPublisher (15 * Second) (\<lambda>r. idleEndpoint)) of
      Some (Inr (Inl p)) \<Rightarrow>
        shuttingDown p \<and> \<not> ifSpoolChan p \<and> \<not> onShutdown p \<and>
        nextSpool p = Some [9] \<and> numPayloads p = 1
    | _ \<Rightarrow> False) \<and>
   (case Run [(0, FromReadyChan 1), (1, FromSpoolChan (Some [7, 8])),
              (2, FromSpoolChan (Some [9])), (3, FromOnShutdown), (4, FromReadyChan 1)]
           (NewPublisher (15 * Second) (\<lambda>r. idleEndpoint)) of
      Some (Inr (Inl p)) \<Rightarrow>
        shuttingDown p \<and> ifSpoolChan p \<and> nextSpool p = None \<and> numPayloads p = 2 \<and>
        selectable 5 (FromSpoolChan (Some [10])) p
    | _ \<Rightarrow> False) \<and>
   (case Run [(0, FromReadyChan 1), (1, FromSpoolChan (Some [7, 8])),
              (2, FromSpoolChan (Some [9])), (3, FromOnShutdown), (4, FromReadyChan 1),
              (5, FromSpoolChan (Some [10])), (6, FromReadyChan 1)]
           (NewPublisher (15 * Second) (\<lambda>r. idleEndpoint)) of
      Some (Inr (Inl p)) \<Rightarrow>
        shuttingDown p \<and> ifSpoolChan p \<and> numPayloads p = 3 \<and>
        events (payloads p 2) = [10] \<and> pending (endpoints p 1) = [0, 1, 2] \<and>
        last (effects p) = EndpointSendPayload 1 2
    | _ \<Rightarrow> False)"
  by (simp add: model_defs cong: andThen_weak_cong)

section \<open>A spool that finds no ready endpoint is parked\<close>

text \<open>
  C8. A spool received while the ready list is empty is stored in \<^verbatim>\<open>nextSpool\<close> and
  \<^verbatim>\<open>ifSpoolChan\<close> becomes \<^verbatim>\<open>nil\<close>, so that no spool can be received in the state this leaves.
  I5 (a non-\<^verbatim>\<open>nil\<close> \<^verbatim>\<open>nextSpool\<close> means that the spool channel is not read and that the ready
  list is empty) is kept by every iteration of the loop, and holds in every state \<^verbatim>\<open>Run\<close>
  reaches from \<^verbatim>\<open>NewPublisher\<close>. When a spool with events is parked and \<^verbatim>\<open>registerReady\<close> is
  called for an endpoint that is not marked ready and has fewer than four pending payloads,
  on a well-formed timeout list and payload queue, the call returns: the parked events were
  made a payload that is now the last of the endpoint's pending payloads and was handed to
  the endpoint's \<^verbatim>\<open>SendPayload\<close>, \<^verbatim>\<open>nextSpool\<close> is \<^verbatim>\<open>nil\<close> and the spool channel is read again.
  In a state that \<^verbatim>\<open>Run\<close> reaches from \<^verbatim>\<open>NewPublisher\<close>, with a positive timeout and endpoints
  that start in no list, all of this is so: when a spool with events is parked, no endpoint
  is marked ready, and the next endpoint with fewer than four pending payloads that is
  received from the ready channel gets the spool.
\<close>

theorem parked_spool_goes_to_next_ready_endpoint:
  "(readyHead p = None \<longrightarrow>
      publishLoop now (FromSpoolChan sp) p =
        Some (Inr (Continue (p\<lparr>nextSpool := sp, ifSpoolChan := False\<rparr>))) \<and>
      (\<forall>t sp'. \<not> selectable t (FromSpoolChan sp') (p\<lparr>nextSpool := sp, ifSpoolChan := False\<rparr>))) \<and>
   (parkedInv p \<and> selectable now i p \<and> publishLoop now i p = Some (Inr out) \<longrightarrow>
      parkedInv (stateAfter out)) \<and>
   (Run inputs (NewPublisher timeout eps) = Some (Inr (Inl q)) \<longrightarrow>
      (nextSpool q \<noteq> None \<longrightarrow> \<not> ifSpoolChan q \<and> readyHead q = None)) \<and>
   (nextSpool p = Some evs \<and> evs \<noteq> [] \<and> \<not> Ready (endpoints p e) \<and>
    NumPending (endpoints p e) < 4 \<and> timerInv p \<and>
    (firstPayload p \<noteq> None \<longrightarrow> lastPayload p \<noteq> None) \<longrightarrow>
      (\<exists>p'. registerReady now e p = Some (Inr p') \<and> nextSpool p' = None \<and> ifSpoolChan p' \<and>
         events (payloads p' (nextRef p)) = evs \<and>
         pending (endpoints p' e) = pending (endpoints p e) @ [nextRef p] \<and>
         calls p' = calls p @ EndpointSendPayload e (nextRef p) #
           (if transportOk (endpoints p e) then [] else [EndpointFailed e ErrTransport]))) \<and>
   (0 < timeout \<and> (\<forall>x. TimeoutFunc (eps x) = None \<and> \<not> Ready (eps x)) \<and>
    Run inputs (NewPublisher timeout eps) = Some (Inr (Inl q)) \<and>
    nextSpool q = Some evs \<and> evs \<noteq> [] \<and> NumPending (endpoints q e) < 4 \<longrightarrow>
      (\<forall>x. \<not> Ready (endpoints q x)) \<and>
      (\<exists>p'. publishLoop now (FromReadyChan e) q = Some (Inr (Continue p')) \<and>
         nextSpool p' = None \<and> ifSpoolChan p' \<and>
         events (payloads p' (nextRef q)) = evs \<and>
         pending (endpoints p' e) = pending (endpoints q e) @ [nextRef q] \<and>
         calls p' = calls q @ EndpointSendPayload e (nextRef q) #
           (if transportOk (endpoints q e) then [] else [EndpointFailed e ErrTransport])))"
proof -
  have sent: "\<exists>p'. registerReady now e p = Some (Inr p') \<and> nextSpool p' = None \<and> ifSpoolChan p' \<and>
         events (payloads p' (nextRef p)) = evs \<and>
         pending (endpoints p' e) = pending (endpoints p e) @ [nextRef p] \<and>
         calls p' = calls p @ EndpointSendPayload e (nextRef p) #
           (if transportOk (endpoints p e) then [] else [EndpointFailed e ErrTransport])"
    if a: "nextSpool p = Some evs \<and> evs \<noteq> [] \<and> \<not> Ready (endpoints p e) \<and>
      NumPending (endpoints p e) < 4 \<and> timerInv p \<and>
      (firstPayload p \<noteq> None \<longrightarrow> lastPayload p \<noteq> None)" for p
  proof -
    obtain p1 where p1: "sendPayload now e (Some evs) p = Some (Inr p1)"
      "events (payloads p1 (nextRef p)) = evs"
      "\<forall>x. pending (endpoints p1 x) =
          (if x = e then pending (endpoints p e) @ [nextRef p] else pending (endpoints p x))"
      "calls p1 = calls p @ EndpointSendPayload e (nextRef p) #
         (if transportOk (endpoints p e) then [] else [EndpointFailed e ErrTransport])"
      using a sendPayload_sends [of p evs now e] by blast
    have "registerReady now e p = Some (Inr (p1\<lparr>nextSpool := None, ifSpoolChan := True\<rparr>))"
      using a p1(1) by (simp add: registerReady_def ok_def)
    then show ?thesis using p1(2,3,4) by (simp add: calls_def)
  qed
  have reach: "(\<forall>x. \<not> Ready (endpoints q x)) \<and>
      (\<exists>p'. publishLoop now (FromReadyChan e) q = Some (Inr (Continue p')) \<and>
         nextSpool p' = None \<and> ifSpoolChan p' \<and>
         events (payloads p' (nextRef q)) = evs \<and>
         pending (endpoints p' e) = pending (endpoints q e) @ [nextRef q] \<and>
         calls p' = calls q @ EndpointSendPayload e (nextRef q) #
           (if transportOk (endpoints q e) then [] else [EndpointFailed e ErrTransport]))"
    if b: "0 < timeout \<and> (\<forall>x. TimeoutFunc (eps x) = None \<and> \<not> Ready (eps x)) \<and>
      Run inputs (NewPublisher timeout eps) = Some (Inr (Inl q)) \<and>
      nextSpool q = Some evs \<and> evs \<noteq> [] \<and> NumPending (endpoints q e) < 4"
  proof -
    have b1: "0 < timeout" and b2: "\<forall>x. TimeoutFunc (eps x) = None \<and> \<not> Ready (eps x)"
      and b3: "Run inputs (NewPublisher timeout eps) = Some (Inr (Inl q))"
      using b by simp_all
    note r = reached [OF b1 b2 b3]
    have "readyHead q = None" using r(5) b by (simp add: parkedInv_def)
    then have none: "\<forall>x. \<not> Ready (endpoints q x)"
      using r(3) by (auto simp: readyInv_def)
    obtain p' where p': "registerReady now e q = Some (Inr p')" "nextSpool p' = None"
      "ifSpoolChan p'" "events (payloads p' (nextRef q)) = evs"
      "pending (endpoints p' e) = pending (endpoints q e) @ [nextRef q]"
      "calls p' = calls q @ EndpointSendPayload e (nextRef q) #
         (if transportOk (endpoints q e) then [] else [EndpointFailed e ErrTransport])"
      using sent [of q] b none r(1,4) by (auto simp: queueOk_def)
    have "publishLoop now (FromReadyChan e) q = Some (Inr (Continue p'))"
      using p'(1) by (simp add: publishLoop_def)
    then show ?thesis using none p'(2-6) by blast
  qed
  show ?thesis
proof (intro conjI impI allI)
  assume "readyHead p = None"
  then show "publishLoop now (FromSpoolChan sp) p =
      Some (Inr (Continue (p\<lparr>nextSpool := sp, ifSpoolChan := False\<rparr>)))"
    by (simp add: publishLoop_def ok_def)
next
  fix t sp'
  show "\<not> selectable t (FromSpoolChan sp') (p\<lparr>nextSpool := sp, ifSpoolChan := False\<rparr>)"
    by (simp add: selectable_def)
next
  assume "parkedInv p \<and> selectable now i p \<and> publishLoop now i p = Some (Inr out)"
  then show "parkedInv (stateAfter out)"
    using publishLoop_parkedInv [of now i p out] by simp
next
  assume run: "Run inputs (NewPublisher timeout eps) = Some (Inr (Inl q))"
  have "parkedInv (beforeLoop (NewPublisher timeout eps))"
    by (simp add: parkedInv_def beforeLoop_def NewPublisher_def)
  then have "parkedInv q" using loopOn_parkedInv [OF run [unfolded Run_def]] by simp
  then show "nextSpool q \<noteq> None \<Longrightarrow> \<not> ifSpoolChan q" and "nextSpool q \<noteq> None \<Longrightarrow> readyHead q = None"
    by (simp_all add: parkedInv_def)
next
  assume "nextSpool p = Some evs \<and> evs \<noteq> [] \<and> \<not> Ready (endpoints p e) \<and>
    NumPending (endpoints p e) < 4 \<and> timerInv p \<and>
    (firstPayload p \<noteq> None \<longrightarrow> lastPayload p \<noteq> None)"
  then show "\<exists>p'. registerReady now e p = Some (Inr p') \<and> nextSpool p' = None \<and> ifSpoolChan p' \<and>
         events (payloads p' (nextRef p)) = evs \<and>
         pending (endpoints p' e) = pending (endpoints p e) @ [nextRef p] \<and>
         calls p' = calls p @ EndpointSendPayload e (nextRef p) #
           (if transportOk (endpoints p e) then [] else [EndpointFailed e ErrTransport])"
    by (rule sent)
next
  assume b: "0 < timeout \<and> (\<forall>x. TimeoutFunc (eps x) = None \<and> \<not> Ready (eps x)) \<and>
    Run inputs (NewPublisher timeout eps) = Some (Inr (Inl q)) \<and>
    nextSpool q = Some evs \<and> evs \<noteq> [] \<and> NumPending (endpoints q e) < 4"
  show "\<not> Ready (endpoints q x)" for x using reach [OF b] by simp
  show "\<exists>p'. publishLoop now (FromReadyChan e) q = Some (Inr (Continue p')) \<and>
         nextSpool p' = None \<and> ifSpoolChan p' \<and>
         events (payloads p' (nextRef q)) = evs \<and>
         pending (endpoints p' e) = pending (endpoints q e) @ [nextRef q] \<and>
         calls p' = calls q @ EndpointSendPayload e (nextRef q) #
           (if transportOk (endpoints q e) then [] else [EndpointFailed e ErrTransport])"
    using reach [OF b] by simp
qed
qed

theorem parked_spool_goes_to_next_ready_endpoint_witness:
  "readyHead quiet = None \<and>
   publishLoop 0 (FromSpoolChan (Some [7, 8])) quiet = Some (Inr (Continue parked)) \<and>
   0 < 15 * Second \<and> (\<forall>x::ref. TimeoutFunc idleEndpoint = None \<and> \<not> Ready idleEndpoint) \<and>
   Run [(0, FromSpoolChan (Some [7, 8]))] (NewPublisher (15 * Second) (\<lambda>r. idleEndpoint))
     = Some (Inr (Inl parked)) \<and>
   nextSpool parked = Some [7, 8] \<and> \<not> ifSpoolChan parked \<and> readyHead parked = None \<and>
   parkedInv parked \<and> selectable 1 (FromReadyChan 1) parked \<and>
   (\<forall>x. \<not> Ready (endpoints parked x)) \<and> NumPending (endpoints parked 1) < 4 \<and>
   timerInv parked \<and> firstPayload parked = None \<and>
   (\<exists>p'. publishLoop 1 (FromReadyChan 1) parked = Some (Inr (Continue p')) \<and>
      registerReady 1 1 parked = Some (Inr p') \<and> parkedInv p' \<and>
      nextSpool p' = None \<and> ifSpoolChan p' \<and> events (payloads p' 0) = [7, 8] \<and>
      pending (endpoints p' 1) = [0] \<and> calls p' = [EndpointSendPayload 1 0])"
proof -
  have pk: "parked = quiet\<lparr>nextSpool := Some [7, 8], ifSpoolChan := False\<rparr>"
    by (simp add: parked_def quiet_def model_defs)
  have h: "readyHead quiet = None" by (simp add: quiet_def model_defs)
  have f: "nextSpool parked = Some [7, 8]" "\<not> ifSpoolChan parked" "readyHead parked = None"
    "\<not> Ready (endpoints parked 1)" "NumPending (endpoints parked 1) < 4"
    "firstPayload parked = None" "nextRef parked = 0" "pending (endpoints parked 1) = []"
    "calls parked = []" "transportOk (endpoints parked 1)"
    by (simp_all add: pk quiet_def calls_def model_defs)
  have inv: "parkedInv parked" using f by (simp add: parkedInv_def)
  have sel: "selectable 1 (FromReadyChan 1) parked" by (simp add: selectable_def)
  have T: "0 < 15 * Second" by (simp add: Second_def)
  have fresh: "\<forall>x::ref. TimeoutFunc ((\<lambda>r. idleEndpoint) x) = None \<and> \<not> Ready ((\<lambda>r. idleEndpoint) x)"
    by (simp add: idleEndpoint_def)
  have run: "Run [(0, FromSpoolChan (Some [7, 8]))] (NewPublisher (15 * Second) (\<lambda>r. idleEndpoint))
     = Some (Inr (Inl parked))"
    by (simp add: pk quiet_def model_defs)
  have ti: "timerInv parked" using reached(1) [OF T fresh run] .
  note a = parked_spool_goes_to_next_ready_endpoint [of quiet 0 "Some [7, 8]" FromStatsTimer
      "Continue quiet" "[]" 0 "\<lambda>r. idleEndpoint" quiet "[]" 0]
  have A: "publishLoop 0 (FromSpoolChan (Some [7, 8])) quiet = Some (Inr (Continue parked))"
    using a h pk by simp
  note b = parked_spool_goes_to_next_ready_endpoint [of parked 1 None "FromReadyChan 1" _
      "[(0, FromSpoolChan (Some [7, 8]))]" "15 * Second" "\<lambda>r. idleEndpoint" parked "[7, 8]" 1]
  have none: "\<forall>x. \<not> Ready (endpoints parked x)"
    using b [of "Continue parked"] T fresh run f by blast
  obtain p' where p': "publishLoop 1 (FromReadyChan 1) parked = Some (Inr (Continue p'))"
    "nextSpool p' = None" "ifSpoolChan p'" "events (payloads p' 0) = [7, 8]"
    "pending (endpoints p' 1) = [0]" "calls p' = [EndpointSendPayload 1 0]"
    using b [of "Continue parked"] T fresh run f by auto
  have rr: "registerReady 1 1 parked = Some (Inr p')"
    using p'(1) by (auto simp: publishLoop_def andThen_returns)
  have "parkedInv p'" using b [of "Continue p'"] inv sel p'(1) by simp
  then show ?thesis using h A T fresh run f inv sel none ti p' rr by simp
qed

section \<open>The ready list is kept in order of load\<close>

text \<open>
  C6. On a ready list that is a proper linked list and does not hold the endpoint yet,
  \<^verbatim>\<open>addReady\<close> returns and marks the endpoint ready; the list it leaves is the old one with
  the endpoint put behind the leading nodes that have at most as many pending payloads as the
  endpoint, that is before the first node with strictly more, and behind the older nodes with
  as many. The endpoint is the new head exactly when the list was empty or its head had
  strictly more pending payloads, and a list in ascending order of \<^verbatim>\<open>NumPending\<close> stays so.
  When a spool with events is received on a non-empty ready list (on a well-formed timeout
  list and payload queue), the iteration returns: the head's \<^verbatim>\<open>Ready\<close> flag is cleared, the
  events were made a payload that is now the last pending payload of the head and was handed
  to its \<^verbatim>\<open>SendPayload\<close>, and the ready list is the old one without its head.
  In every state that \<^verbatim>\<open>Run\<close> reaches from \<^verbatim>\<open>NewPublisher\<close>, with endpoints that start not
  marked ready, the ready list is a proper linked list of exactly the endpoints marked
  ready: an endpoint that \<^verbatim>\<open>registerReady\<close> hands to \<^verbatim>\<open>addReady\<close> is not in the list yet.
\<close>

theorem ready_list_insert_and_dispatch:
  assumes rl: "linked (\<lambda>r. NextReady (endpoints p r)) (readyHead p) xs"
  shows "(e \<notin> set xs \<longrightarrow>
            (\<exists>p'. addReady e p = Some (Inr p') \<and>
               linked (\<lambda>r. NextReady (endpoints p' r)) (readyHead p')
                 (takeWhile (\<lambda>x. NumPending (endpoints p x) \<le> NumPending (endpoints p e)) xs @ e #
                  dropWhile (\<lambda>x. NumPending (endpoints p x) \<le> NumPending (endpoints p e)) xs) \<and>
               Ready (endpoints p' e) \<and>
               (readyHead p' = Some e \<longleftrightarrow>
                  xs = [] \<or> NumPending (endpoints p e) < NumPending (endpoints p (hd xs))) \<and>
               (\<forall>x. NumPending (endpoints p' x) = NumPending (endpoints p x)) \<and>
               (sorted (map (\<lambda>x. NumPending (endpoints p x)) xs) \<longrightarrow>
                  sorted (map (\<lambda>x. NumPending (endpoints p' x))
                    (takeWhile (\<lambda>x. NumPending (endpoints p x) \<le> NumPending (endpoints p e)) xs @ e #
                     dropWhile (\<lambda>x. NumPending (endpoints p x) \<le> NumPending (endpoints p e)) xs))))) \<and>
         (xs \<noteq> [] \<and> evs \<noteq> [] \<and> timerInv p \<and>
          (firstPayload p \<noteq> None \<longrightarrow> lastPayload p \<noteq> None) \<longrightarrow>
            (\<exists>p'. publishLoop now (FromSpoolChan (Some evs)) p = Some (Inr (Continue p')) \<and>
               linked (\<lambda>r. NextReady (endpoints p' r)) (readyHead p') (tl xs) \<and>
               \<not> Ready (endpoints p' (hd xs)) \<and>
               events (payloads p' (nextRef p)) = evs \<and>
               pending (endpoints p' (hd xs)) = pending (endpoints p (hd xs)) @ [nextRef p] \<and>
               calls p' = calls p @ EndpointSendPayload (hd xs) (nextRef p) #
                 (if transportOk (endpoints p (hd xs)) then []
                  else [EndpointFailed (hd xs) ErrTransport]))) \<and>
         ((\<forall>x. \<not> Ready (eps x)) \<and>
          Run inputs (NewPublisher timeout eps) = Some (Inr (Inl q)) \<longrightarrow>
            (\<exists>ys. linked (\<lambda>r. NextReady (endpoints q r)) (readyHead q) ys \<and>
               (\<forall>x. x \<in> set ys \<longleftrightarrow> Ready (endpoints q x))))"
proof (intro conjI impI)
  let ?load = "\<lambda>x. NumPending (endpoints p x)"
  let ?front = "takeWhile (\<lambda>x. ?load x \<le> ?load e) xs"
  let ?rear = "dropWhile (\<lambda>x. ?load x \<le> ?load e) xs"
  assume new: "e \<notin> set xs"
  obtain p' where p': "addReady e p = Some (Inr p')"
    "linked (\<lambda>r. NextReady (endpoints p' r)) (readyHead p') (?front @ e # ?rear)"
    "readyHead p' = (if ?front = [] then Some e else readyHead p)"
    "\<forall>x. Ready (endpoints p' x) = (x = e \<or> Ready (endpoints p x))"
    "\<forall>x. pending (endpoints p' x) = pending (endpoints p x)"
    using addReady_spec [OF rl new] by blast
  have load: "\<forall>x. NumPending (endpoints p' x) = ?load x"
    using p'(5) by (simp add: NumPending_def)
  have head: "readyHead p' = Some e \<longleftrightarrow> xs = [] \<or> ?load e < ?load (hd xs)"
  proof (cases xs)
    case Nil
    then show ?thesis using p'(3) by simp
  next
    case (Cons y ys)
    then have "readyHead p = Some y" "y \<noteq> e" using rl new by auto
    then show ?thesis using p'(3) Cons by auto
  qed
  have srt: "sorted (map (\<lambda>x. NumPending (endpoints p' x)) (?front @ e # ?rear))"
    if "sorted (map ?load xs)"
    using sorted_ready_insert [OF that, of e] load by simp
  show "\<exists>p'. addReady e p = Some (Inr p') \<and>
      linked (\<lambda>r. NextReady (endpoints p' r)) (readyHead p') (?front @ e # ?rear) \<and>
      Ready (endpoints p' e) \<and>
      (readyHead p' = Some e \<longleftrightarrow> xs = [] \<or> ?load e < ?load (hd xs)) \<and>
      (\<forall>x. NumPending (endpoints p' x) = ?load x) \<and>
      (sorted (map ?load xs) \<longrightarrow>
         sorted (map (\<lambda>x. NumPending (endpoints p' x)) (?front @ e # ?rear)))"
    using p'(1,2,4) load head srt by (intro exI [of _ p']) simp
next
  assume a: "xs \<noteq> [] \<and> evs \<noteq> [] \<and> timerInv p \<and>
    (firstPayload p \<noteq> None \<longrightarrow> lastPayload p \<noteq> None)"
  then obtain h rest where xs: "xs = h # rest" by (cases xs) auto
  obtain p' where p': "publishLoop now (FromSpoolChan (Some evs)) p = Some (Inr (Continue p'))"
    "linked (\<lambda>r. NextReady (endpoints p' r)) (readyHead p') rest"
    "\<forall>x. Ready (endpoints p' x) = (x \<noteq> h \<and> Ready (endpoints p x))"
    "events (payloads p' (nextRef p)) = evs"
    "\<forall>x. pending (endpoints p' x) =
        (if x = h then pending (endpoints p h) @ [nextRef p] else pending (endpoints p x))"
    "calls p' = calls p @ EndpointSendPayload h (nextRef p) #
       (if transportOk (endpoints p h) then [] else [EndpointFailed h ErrTransport])"
    using dispatch_spec [OF rl [unfolded xs], of evs now] a by blast
  show "\<exists>p'. publishLoop now (FromSpoolChan (Some evs)) p = Some (Inr (Continue p')) \<and>
      linked (\<lambda>r. NextReady (endpoints p' r)) (readyHead p') (tl xs) \<and>
      \<not> Ready (endpoints p' (hd xs)) \<and>
      events (payloads p' (nextRef p)) = evs \<and>
      pending (endpoints p' (hd xs)) = pending (endpoints p (hd xs)) @ [nextRef p] \<and>
      calls p' = calls p @ EndpointSendPayload (hd xs) (nextRef p) #
        (if transportOk (endpoints p (hd xs)) then []
         else [EndpointFailed (hd xs) ErrTransport])"
    using p' xs by (intro exI [of _ p']) simp
next
  assume a: "(\<forall>x. \<not> Ready (eps x)) \<and>
    Run inputs (NewPublisher timeout eps) = Some (Inr (Inl q))"
  then have "readyInv (beforeLoop (NewPublisher timeout eps))"
    by (intro NewPublisher_readyInv) simp
  moreover have "loopOn inputs (beforeLoop (NewPublisher timeout eps)) = Some (Inr (Inl q))"
    using a by (simp add: Run_def)
  ultimately have "readyInv q" using loopOn_readyInv by blast
  then show "\<exists>ys. linked (\<lambda>r. NextReady (endpoints q r)) (readyHead q) ys \<and>
      (\<forall>x. x \<in> set ys \<longleftrightarrow> Ready (endpoints q x))"
    by (simp add: readyInv_def)
qed

theorem ready_list_insert_and_dispatch_witness:
  "linked (\<lambda>r. NextReady (endpoints twoReady r)) (readyHead twoReady) [2, 1] \<and>
   3 \<notin> set [2, 1 :: ref] \<and>
   map (\<lambda>x. NumPending (endpoints twoReady x)) [2, 3, 1] = [0, 0, 1] \<and>
   (\<exists>p'. addReady 3 twoReady = Some (Inr p') \<and>
      linked (\<lambda>r. NextReady (endpoints p' r)) (readyHead p') [2, 3, 1] \<and>
      Ready (endpoints p' 3) \<and> readyHead p' = Some 2 \<and>
      sorted (map (\<lambda>x. NumPending (endpoints p' x)) [2, 3, 1])) \<and>
   timerInv twoReady \<and> lastPayload twoReady = Some 0 \<and>
   (\<forall>x::ref. \<not> Ready idleEndpoint) \<and>
   Run [(0, FromReadyChan 1), (1, FromSpoolChan (Some [7, 8])),
        (2, FromReadyChan 2), (3, FromReadyChan 1)]
       (NewPublisher (15 * Second) (\<lambda>r. idleEndpoint)) = Some (Inr (Inl twoReady)) \<and>
   (\<forall>x. Ready (endpoints twoReady x) \<longleftrightarrow> x \<in> set [2, 1]) \<and>
   (\<exists>p'. publishLoop 4 (FromSpoolChan (Some [9])) twoReady = Some (Inr (Continue p')) \<and>
      linked (\<lambda>r. NextReady (endpoints p' r)) (readyHead p') [1] \<and>
      \<not> Ready (endpoints p' 2) \<and> events (payloads p' 1) = [9] \<and>
      pending (endpoints p' 2) = [1] \<and>
      calls p' = calls twoReady @ [EndpointSendPayload 2 1])"
proof -
  have run: "loopOn [(0, FromReadyChan 1), (1, FromSpoolChan (Some [7, 8])),
      (2, FromReadyChan 2), (3, FromReadyChan 1)] quiet = Some (Inr (Inl twoReady))"
    by (simp add: twoReady_def quiet_def model_defs cong: andThen_weak_cong)
  have f: "readyHead twoReady = Some 2" "NextReady (endpoints twoReady 2) = Some 1"
    "NextReady (endpoints twoReady 1) = None"
    "pending (endpoints twoReady 1) = [0]" "pending (endpoints twoReady 2) = []"
    "pending (endpoints twoReady 3) = []"
    "lastPayload twoReady = Some 0" "nextRef twoReady = 1" "transportOk (endpoints twoReady 2)"
    by (simp_all add: twoReady_def quiet_def model_defs cong: andThen_weak_cong)
  have rl: "linked (\<lambda>r. NextReady (endpoints twoReady r)) (readyHead twoReady) [2, 1]"
    using f by simp
  have load: "map (\<lambda>x. NumPending (endpoints twoReady x)) [2, 3, 1] = [0, 0, 1]"
    using f by (simp add: NumPending_def)
  have t0: "timerInv quiet"
    unfolding quiet_def by (rule NewPublisher_timerInv) (simp add: idleEndpoint_def)
  have T0: "0 < config_Timeout quiet"
    by (simp add: quiet_def beforeLoop_def NewPublisher_def Second_def)
  have ti: "timerInv twoReady" using loopOn_timerInv [OF run t0 T0] by simp
  have run': "Run [(0, FromReadyChan 1), (1, FromSpoolChan (Some [7, 8])),
        (2, FromReadyChan 2), (3, FromReadyChan 1)]
       (NewPublisher (15 * Second) (\<lambda>r. idleEndpoint)) = Some (Inr (Inl twoReady))"
    using run by (simp add: Run_def quiet_def)
  have fresh: "\<forall>x::ref. \<not> Ready ((\<lambda>r. idleEndpoint) x)" by (simp add: idleEndpoint_def)
  note t = ready_list_insert_and_dispatch [OF rl, of 3 "[9]" 4 "\<lambda>r. idleEndpoint"
      "[(0, FromReadyChan 1), (1, FromSpoolChan (Some [7, 8])),
        (2, FromReadyChan 2), (3, FromReadyChan 1)]" "15 * Second" twoReady]
  have marked: "\<forall>x. Ready (endpoints twoReady x) \<longleftrightarrow> x \<in> set [2, 1]"
  proof -
    obtain ys where ys: "linked (\<lambda>r. NextReady (endpoints twoReady r)) (readyHead twoReady) ys"
      "\<forall>x. x \<in> set ys \<longleftrightarrow> Ready (endpoints twoReady x)"
      using t fresh run' by blast
    have "ys = [2, 1]" using linked_unique [OF ys(1) rl] .
    then show ?thesis using ys(2) by simp
  qed
  have ins: "takeWhile (\<lambda>x. NumPending (endpoints twoReady x) \<le> NumPending (endpoints twoReady 3)) [2, 1] @ 3 #
      dropWhile (\<lambda>x. NumPending (endpoints twoReady x) \<le> NumPending (endpoints twoReady 3)) [2, 1]
      = [2, 3, 1]"
    using f by (simp add: NumPending_def)
  have a: "\<exists>p'. addReady 3 twoReady = Some (Inr p') \<and>
      linked (\<lambda>r. NextReady (endpoints p' r)) (readyHead p') [2, 3, 1] \<and>
      Ready (endpoints p' 3) \<and> readyHead p' = Some 2 \<and>
      sorted (map (\<lambda>x. NumPending (endpoints p' x)) [2, 3, 1])"
  proof -
    obtain p' where p': "addReady 3 twoReady = Some (Inr p')"
      "linked (\<lambda>r. NextReady (endpoints p' r)) (readyHead p') [2, 3, 1]"
      "Ready (endpoints p' 3)"
      "sorted (map (\<lambda>x. NumPending (endpoints twoReady x)) [2, 1]) \<longrightarrow>
         sorted (map (\<lambda>x. NumPending (endpoints p' x)) [2, 3, 1])"
      using t unfolding ins by auto
    have "readyHead p' = Some 2" using p'(2) by simp
    moreover have "sorted (map (\<lambda>x. NumPending (endpoints p' x)) [2, 3, 1])"
      using p'(4) f by (simp add: NumPending_def)
    ultimately show ?thesis using p' by blast
  qed
  have b: "\<exists>p'. publishLoop 4 (FromSpoolChan (Some [9])) twoReady = Some (Inr (Continue p')) \<and>
      linked (\<lambda>r. NextReady (endpoints p' r)) (readyHead p') [1] \<and>
      \<not> Ready (endpoints p' 2) \<and> events (payloads p' 1) = [9] \<and>
      pending (endpoints p' 2) = [1] \<and>
      calls p' = calls twoReady @ [EndpointSendPayload 2 1]"
    using t ti f by simp
  show ?thesis using rl load a ti f(7) fresh run' marked b by simp
qed

section \<open>The registrar is fed in the order of the queue\<close>




end
